theory Spec2Isabelle
  imports Main "HOL-Library.Word"
begin

unbundle bit_operations_syntax

section \<open>Buffers and the JavaScript primitives the reader relies on\<close>

text \<open>
  A Node \<open>Buffer\<close> is a list of bytes. JavaScript numbers that hold offsets and lengths are
  modelled as \<open>int\<close> (they stay far below \<open>2 ^ 53\<close>); the operands of the bitwise
  operators \<open>|\<close>, \<open>&\<close> and \<open><<\<close> are 32-bit words, read back signed (\<open>sint\<close>) as
  JavaScript does, or unsigned (\<open>uint\<close>) after \<open>>>> 0\<close>.
\<close>

type_synonym buffer = "8 word list"

datatype error =
    VarintTooLong
  | UnexpectedEnd
  | UnknownCompression
  | OutOfRange
  | SnappyFailure
  | DecipherFailure
  | URIError
  | RangeError

record entry =
  key :: buffer
  "value" :: buffer

text \<open>\<open>buf[i]\<close>: \<open>undefined\<close> (here \<open>None\<close>) outside \<open>0 \<le> i < buf.length\<close>.\<close>

definition js_index :: "buffer \<Rightarrow> int \<Rightarrow> 8 word option" where
  "js_index buf i = (if 0 \<le> i \<and> i < int (length buf) then Some (buf ! nat i) else None)"

text \<open>\<open>buf.at(i)\<close>: a negative index counts from the end.\<close>

definition js_at :: "buffer \<Rightarrow> int \<Rightarrow> 8 word option" where
  "js_at buf i = js_index buf (if i < 0 then int (length buf) + i else i)"

text \<open>The operand conversion of the bitwise operators: \<open>undefined\<close> becomes 0.\<close>

definition to_int32 :: "8 word option \<Rightarrow> 32 word" where
  "to_int32 v = (case v of None \<Rightarrow> 0 | Some b \<Rightarrow> ucast b)"

text \<open>
  \<open>buf.subarray(start, end)\<close>: negative indices count from the end, both indices are
  clamped to the buffer, and an end before the start gives the empty buffer.
\<close>

definition clamp_index :: "buffer \<Rightarrow> int \<Rightarrow> nat" where
  "clamp_index buf i =
     (if i < 0 then nat (max (int (length buf) + i) 0) else nat (min i (int (length buf))))"

definition subarray :: "buffer \<Rightarrow> int \<Rightarrow> int \<Rightarrow> buffer" where
  "subarray buf start end =
     (let s = clamp_index buf start; e = clamp_index buf end
      in take (e - s) (drop s buf))"

text \<open>
  \<open>buf.readUInt16LE(offset)\<close> and \<open>buf.readUInt32LE(offset)\<close> raise a range error unless
  the whole field lies inside the buffer.
\<close>

definition readUInt16LE :: "buffer \<Rightarrow> int \<Rightarrow> error + int" where
  "readUInt16LE buf offset =
     (if 0 \<le> offset \<and> offset + 2 \<le> int (length buf)
      then Inr (uint (buf ! nat offset) + 256 * uint (buf ! nat (offset + 1)))
      else Inl OutOfRange)"

definition readUInt32LE :: "buffer \<Rightarrow> int \<Rightarrow> error + int" where
  "readUInt32LE buf offset =
     (if 0 \<le> offset \<and> offset + 4 \<le> int (length buf)
      then Inr (uint (buf ! nat offset) + 256 * uint (buf ! nat (offset + 1))
                + 65536 * uint (buf ! nat (offset + 2)) + 16777216 * uint (buf ! nat (offset + 3)))
      else Inl OutOfRange)"

text \<open>
  \<open>buf.indexOf(pattern)\<close> for a buffer pattern: the index of the first occurrence, or -1;
  the empty pattern is found at 0. \<open>buf.includes(pattern)\<close> is \<open>indexOf(pattern) !== -1\<close>.
\<close>

fun indexOf_scan :: "buffer \<Rightarrow> buffer \<Rightarrow> int \<Rightarrow> int" where
  "indexOf_scan [] pat i = (if pat = [] then i else - 1)"
| "indexOf_scan (b # bs) pat i =
     (if take (length pat) (b # bs) = pat then i else indexOf_scan bs pat (i + 1))"

definition indexOf :: "buffer \<Rightarrow> buffer \<Rightarrow> int" where
  "indexOf buf pat = indexOf_scan buf pat 0"

definition buffer_includes :: "buffer \<Rightarrow> buffer \<Rightarrow> bool" where
  "buffer_includes buf pat = (indexOf buf pat \<noteq> - 1)"

text \<open>\<open>s.endsWith(suffix)\<close> on file names.\<close>

definition endsWith :: "string \<Rightarrow> string \<Rightarrow> bool" where
  "endsWith s suffix =
     (length suffix \<le> length s \<and> drop (length s - length suffix) s = suffix)"

text \<open>
  \<open>entries.push(...items)\<close> passes every item as an argument of one call. An engine accepts
  only so many arguments and throws a range error beyond that; the limit differs between
  engines and is a parameter of the model.
\<close>

definition push_spread :: "int \<Rightarrow> entry list \<Rightarrow> entry list \<Rightarrow> error + entry list" where
  "push_spread argLimit entries items =
     (if int (length items) > argLimit then Inl RangeError else Inr (entries @ items))"

section \<open>leveldb-reader.ts\<close>

definition LEVELDB_MAGIC :: buffer where
  "LEVELDB_MAGIC = [0x57, 0xfb, 0x80, 0x8b, 0x24, 0x75, 0x47, 0xdb]"

definition COMPRESSION_NONE :: "8 word" where "COMPRESSION_NONE = 0"
definition COMPRESSION_SNAPPY :: "8 word" where "COMPRESSION_SNAPPY = 1"

definition LOG_RECORD_FULL :: "8 word" where "LOG_RECORD_FULL = 1"
definition LOG_RECORD_FIRST :: "8 word" where "LOG_RECORD_FIRST = 2"
definition LOG_RECORD_MIDDLE :: "8 word" where "LOG_RECORD_MIDDLE = 3"
definition LOG_RECORD_LAST :: "8 word" where "LOG_RECORD_LAST = 4"

definition BLOCK_SIZE :: int where "BLOCK_SIZE = 32768"

subsection \<open>readVarint and readVarint64\<close>

text \<open>
  The loop of \<open>readVarint\<close>, with the loop variables \<open>result\<close>, \<open>shift\<close> and \<open>bytesRead\<close> as
  arguments. \<open>result |= (byte & 0x7f) << shift\<close> works on signed 32-bit integers, so the value
  returned is \<open>sint result\<close> and is negative when bit 31 is set.
\<close>

function readVarint_loop ::
  "buffer \<Rightarrow> int \<Rightarrow> 32 word \<Rightarrow> nat \<Rightarrow> int \<Rightarrow> error + (int \<times> int)" where
  "readVarint_loop buf offset result shift bytesRead =
     (if offset + bytesRead < int (length buf) then
        (let byte = to_int32 (js_index buf (offset + bytesRead));
             bytesRead' = bytesRead + 1;
             result' = result OR push_bit shift (byte AND 0x7f)
         in if byte AND 0x80 = 0 then Inr (sint result', bytesRead')
            else (let shift' = shift + 7
                  in if shift' \<ge> 35 then Inl VarintTooLong
                     else readVarint_loop buf offset result' shift' bytesRead'))
      else Inl UnexpectedEnd)"
  by pat_completeness auto
termination
  by (relation "measure (\<lambda>(buf, offset, result, shift, bytesRead). 35 - shift)") auto

definition readVarint :: "buffer \<Rightarrow> int \<Rightarrow> error + (int \<times> int)" where
  "readVarint buf offset = readVarint_loop buf offset 0 0 0"

text \<open>\<open>readVarint64\<close> returns \<open>result >>> 0\<close>, the unsigned reading of the 32-bit result.\<close>

function readVarint64_loop ::
  "buffer \<Rightarrow> int \<Rightarrow> 32 word \<Rightarrow> nat \<Rightarrow> int \<Rightarrow> error + (int \<times> int)" where
  "readVarint64_loop buf offset result shift bytesRead =
     (if offset + bytesRead < int (length buf) \<and> bytesRead < 10 then
        (let byte = to_int32 (js_index buf (offset + bytesRead));
             bytesRead' = bytesRead + 1;
             result' = (if shift < 32 then result OR push_bit shift (byte AND 0x7f) else result)
         in if byte AND 0x80 = 0 then Inr (uint result', bytesRead')
            else readVarint64_loop buf offset result' (shift + 7) bytesRead')
      else Inl UnexpectedEnd)"
  by pat_completeness auto
termination
  by (relation "measure (\<lambda>(buf, offset, result, shift, bytesRead). nat (10 - bytesRead))") auto

definition readVarint64 :: "buffer \<Rightarrow> int \<Rightarrow> error + (int \<times> int)" where
  "readVarint64 buf offset = readVarint64_loop buf offset 0 0 0"


subsection \<open>Block handles and decompression\<close>

text \<open>
  \<open>snappyUncompress\<close> comes from the package hysnappy; it is a parameter of the model
  (compressed bytes and declared length to the decompressed bytes, or a failure).
\<close>

type_synonym snappy = "buffer \<Rightarrow> int \<Rightarrow> error + buffer"

record block_handle =
  bh_offset :: int
  bh_size :: int
  bh_bytesRead :: int

definition parseBlockHandle :: "buffer \<Rightarrow> int \<Rightarrow> error + block_handle" where
  "parseBlockHandle buf offset =
     (case readVarint64 buf offset of
        Inl e \<Rightarrow> Inl e
      | Inr (blockOffset, n1) \<Rightarrow>
          (case readVarint64 buf (offset + n1) of
             Inl e \<Rightarrow> Inl e
           | Inr (blockSize, n2) \<Rightarrow>
               Inr \<lparr>bh_offset = blockOffset, bh_size = blockSize, bh_bytesRead = n1 + n2\<rparr>))"

definition getSnappyUncompressedLength :: "buffer \<Rightarrow> error + int" where
  "getSnappyUncompressedLength compressed =
     (case readVarint compressed 0 of Inl e \<Rightarrow> Inl e | Inr (len, n) \<Rightarrow> Inr len)"

definition decompressBlock :: "snappy \<Rightarrow> buffer \<Rightarrow> 8 word option \<Rightarrow> error + buffer" where
  "decompressBlock snappyUncompress blockData compressionType =
     (if compressionType = Some COMPRESSION_NONE then Inr blockData
      else if compressionType = Some COMPRESSION_SNAPPY then
        (case getSnappyUncompressedLength blockData of
           Inl e \<Rightarrow> Inl e
         | Inr uncompressedLength \<Rightarrow> snappyUncompress blockData uncompressedLength)
      else Inl UnknownCompression)"

subsection \<open>parseDataBlock\<close>

text \<open>
  The body of the \<open>try\<close> in the loop of \<open>parseDataBlock\<close>: \<open>Inl\<close> when a varint read
  throws, \<open>Inr None\<close> at the \<open>break\<close>, otherwise the new offset, the entry pushed and the
  new \<open>prevKey\<close>.
\<close>

definition parseDataBlock_entry ::
  "buffer \<Rightarrow> int \<Rightarrow> int \<Rightarrow> buffer \<Rightarrow> error + (int \<times> entry \<times> buffer) option" where
  "parseDataBlock_entry block restartsStart offset prevKey =
     (case readVarint block offset of
        Inl e \<Rightarrow> Inl e
      | Inr (shared, n1) \<Rightarrow>
     (let offset1 = offset + n1 in
      case readVarint block offset1 of
        Inl e \<Rightarrow> Inl e
      | Inr (nonShared, n2) \<Rightarrow>
     (let offset2 = offset1 + n2 in
      case readVarint block offset2 of
        Inl e \<Rightarrow> Inl e
      | Inr (valueLen, n3) \<Rightarrow>
     (let offset3 = offset2 + n3 in
      if offset3 + nonShared + valueLen > restartsStart then Inr None
      else
        (let keyDelta = subarray block offset3 (offset3 + nonShared);
             offset4 = offset3 + nonShared;
             key = subarray prevKey 0 shared @ keyDelta;
             value = subarray block offset4 (offset4 + valueLen);
             offset5 = offset4 + valueLen
         in Inr (Some (offset5, \<lparr>key = key, value = value\<rparr>, key)))))))"

text \<open>
  The \<open>while\<close> loop of \<open>parseDataBlock\<close>. A negative \<open>nonShared\<close> or \<open>valueLen\<close> can move
  the offset backwards, so the loop is not total: \<open>None\<close> stands for a run that never
  leaves the loop.
\<close>

partial_function (option) parseDataBlock_loop ::
  "buffer \<Rightarrow> int \<Rightarrow> int \<Rightarrow> buffer \<Rightarrow> entry list \<Rightarrow> entry list option" where
  "parseDataBlock_loop block restartsStart offset prevKey entries =
     (if offset < restartsStart then
        (case parseDataBlock_entry block restartsStart offset prevKey of
           Inl e \<Rightarrow> Some entries
         | Inr None \<Rightarrow> Some entries
         | Inr (Some (offset', e, prevKey')) \<Rightarrow>
             parseDataBlock_loop block restartsStart offset' prevKey' (entries @ [e]))
      else Some entries)"

definition parseDataBlock :: "buffer \<Rightarrow> (error + entry list) option" where
  "parseDataBlock block =
     (if int (length block) < 4 then Some (Inr [])
      else
        (case readUInt32LE block (int (length block) - 4) of
           Inl e \<Rightarrow> Some (Inl e)
         | Inr numRestarts \<Rightarrow>
             (let restartsStart = int (length block) - 4 - numRestarts * 4
              in if restartsStart < 0 then Some (Inr [])
                 else map_option Inr (parseDataBlock_loop block restartsStart 0 [] []))))"

subsection \<open>parseSSTable\<close>

text \<open>
  \<open>parseSSTable\<close> takes the outcome of \<open>readFile\<close>: the bytes of the file, or \<open>None\<close>
  when reading throws.
\<close>

text \<open>
  The body of the inner \<open>try\<close> of \<open>parseSSTable\<close>, for one index entry: \<open>Inl\<close> when it
  throws, \<open>Inr None\<close> at the \<open>continue\<close> of the range check, otherwise the entries of the
  data block.
\<close>

definition parseSSTable_block ::
  "snappy \<Rightarrow> buffer \<Rightarrow> entry \<Rightarrow> (error + entry list option) option" where
  "parseSSTable_block snappyUncompress data indexEntry =
     (case parseBlockHandle (value indexEntry) 0 of
        Inl e \<Rightarrow> Some (Inl e)
      | Inr blockHandle \<Rightarrow>
          (let blockStart = bh_offset blockHandle;
               blockEnd = bh_offset blockHandle + bh_size blockHandle + 5
           in if blockEnd > int (length data) then Some (Inr None)
              else
                (let blockRaw = subarray data blockStart blockEnd;
                     compressionType = js_at blockRaw (- 5);
                     blockData = subarray blockRaw 0 (- 5)
                 in case decompressBlock snappyUncompress blockData compressionType of
                      Inl e \<Rightarrow> Some (Inl e)
                    | Inr block \<Rightarrow>
                        (case parseDataBlock block of
                           None \<Rightarrow> None
                         | Some (Inl e) \<Rightarrow> Some (Inl e)
                         | Some (Inr blockEntries) \<Rightarrow> Some (Inr (Some blockEntries))))))"

text \<open>
  The \<open>for\<close> loop over the index entries. A block that throws or is out of range is
  skipped; so is a block whose entries are too many for \<open>entries.push(...blockEntries)\<close>,
  since the push is inside the inner \<open>try\<close>.
\<close>

fun parseSSTable_blocks ::
  "int \<Rightarrow> snappy \<Rightarrow> buffer \<Rightarrow> entry list \<Rightarrow> entry list \<Rightarrow> entry list option" where
  "parseSSTable_blocks argLimit snappyUncompress data [] entries = Some entries"
| "parseSSTable_blocks argLimit snappyUncompress data (indexEntry # rest) entries =
     (case parseSSTable_block snappyUncompress data indexEntry of
        None \<Rightarrow> None
      | Some (Inl e) \<Rightarrow> parseSSTable_blocks argLimit snappyUncompress data rest entries
      | Some (Inr None) \<Rightarrow> parseSSTable_blocks argLimit snappyUncompress data rest entries
      | Some (Inr (Some blockEntries)) \<Rightarrow>
          (case push_spread argLimit entries blockEntries of
             Inl e \<Rightarrow> parseSSTable_blocks argLimit snappyUncompress data rest entries
           | Inr entries' \<Rightarrow> parseSSTable_blocks argLimit snappyUncompress data rest entries'))"

text \<open>
  The part of the outer \<open>try\<close> before the \<open>for\<close> loop: \<open>Inl\<close> when it throws, \<open>Inr None\<close>
  at the early \<open>return\<close>, otherwise the index entries.
\<close>

definition parseSSTable_index ::
  "snappy \<Rightarrow> buffer \<Rightarrow> buffer \<Rightarrow> (error + entry list option) option" where
  "parseSSTable_index snappyUncompress data footer =
     (case parseBlockHandle footer 0 of
        Inl e \<Rightarrow> Some (Inl e)
      | Inr metaHandle \<Rightarrow>
     (case parseBlockHandle footer (bh_bytesRead metaHandle) of
        Inl e \<Rightarrow> Some (Inl e)
      | Inr indexHandle \<Rightarrow>
          (let indexBlockStart = bh_offset indexHandle;
               indexBlockEnd = bh_offset indexHandle + bh_size indexHandle + 5
           in if indexBlockEnd > int (length data) - 48 then Some (Inr None)
              else
                (let indexBlockRaw = subarray data indexBlockStart indexBlockEnd;
                     indexCompressionType = js_at indexBlockRaw (- 5);
                     indexBlockData = subarray indexBlockRaw 0 (- 5)
                 in case decompressBlock snappyUncompress indexBlockData indexCompressionType of
                      Inl e \<Rightarrow> Some (Inl e)
                    | Inr indexBlock \<Rightarrow>
                        (case parseDataBlock indexBlock of
                           None \<Rightarrow> None
                         | Some (Inl e) \<Rightarrow> Some (Inl e)
                         | Some (Inr indexEntries) \<Rightarrow> Some (Inr (Some indexEntries)))))))"

text \<open>
  \<open>parseSSTable\<close>, on the outcome of \<open>readFile\<close>. The result is \<open>None\<close> when the call never
  returns, \<open>Some (Inl e)\<close> when it raises \<open>e\<close> to its caller and \<open>Some (Inr entries)\<close> when it
  returns \<open>entries\<close>. Both \<open>catch\<close> clauses and the early \<open>return\<close> return the entries
  collected so far, which are none before the \<open>for\<close> loop.
\<close>

definition parseSSTable ::
  "int \<Rightarrow> snappy \<Rightarrow> buffer option \<Rightarrow> (error + entry list) option" where
  "parseSSTable argLimit snappyUncompress file =
     (case file of
        None \<Rightarrow> Some (Inr [])
      | Some data \<Rightarrow>
          if int (length data) < 48 then Some (Inr [])
          else
            (let footer = subarray data (- 48) (int (length data));
                 magic = subarray footer 40 48
             in if magic \<noteq> LEVELDB_MAGIC then Some (Inr [])
                else
                  (case parseSSTable_index snappyUncompress data footer of
                     None \<Rightarrow> None
                   | Some (Inl e) \<Rightarrow> Some (Inr [])
                   | Some (Inr None) \<Rightarrow> Some (Inr [])
                   | Some (Inr (Some indexEntries)) \<Rightarrow>
                       map_option Inr
                         (parseSSTable_blocks argLimit snappyUncompress data indexEntries []))))"

subsection \<open>parseLogBatch\<close>

text \<open>
  The body of the \<open>try\<close> in the loop of \<open>parseLogBatch\<close>, at \<open>offset\<close>: \<open>Inl\<close> when a
  varint read throws, \<open>Inr None\<close> at the \<open>break\<close> for an unknown record type, otherwise
  the new offset and the entries after the record.
\<close>

definition parseLogBatch_record ::
  "buffer \<Rightarrow> int \<Rightarrow> entry list \<Rightarrow> error + (int \<times> entry list) option" where
  "parseLogBatch_record batch offset entries =
     (let recordType = js_index batch offset;
          offset1 = offset + 1
      in if recordType = Some 1 then
           (case readVarint batch offset1 of
              Inl e \<Rightarrow> Inl e
            | Inr (keyLen, n1) \<Rightarrow>
           (let offset2 = offset1 + n1;
                key = subarray batch offset2 (offset2 + keyLen);
                offset3 = offset2 + keyLen
            in case readVarint batch offset3 of
                 Inl e \<Rightarrow> Inl e
               | Inr (valueLen, n2) \<Rightarrow>
                   (let offset4 = offset3 + n2;
                        value = subarray batch offset4 (offset4 + valueLen);
                        offset5 = offset4 + valueLen
                    in Inr (Some (offset5, entries @ [\<lparr>key = key, value = value\<rparr>])))))
         else if recordType = Some 0 then
           (case readVarint batch offset1 of
              Inl e \<Rightarrow> Inl e
            | Inr (keyLen, n1) \<Rightarrow> Inr (Some (offset1 + (n1 + keyLen), entries)))
         else Inr None)"

text \<open>
  The \<open>while\<close> loop of \<open>parseLogBatch\<close>. A negative key length can move the offset
  backwards, so the loop is not total: \<open>None\<close> stands for a run that never leaves the loop.
\<close>

partial_function (option) parseLogBatch_loop ::
  "buffer \<Rightarrow> int \<Rightarrow> entry list \<Rightarrow> entry list option" where
  "parseLogBatch_loop batch offset entries =
     (if offset < int (length batch) then
        (case parseLogBatch_record batch offset entries of
           Inl e \<Rightarrow> Some entries
         | Inr None \<Rightarrow> Some entries
         | Inr (Some (offset', entries')) \<Rightarrow> parseLogBatch_loop batch offset' entries')
      else Some entries)"

text \<open>\<open>parseLogBatch\<close> appends to \<open>entries\<close>; the model returns the extended list.\<close>

definition parseLogBatch :: "buffer \<Rightarrow> entry list \<Rightarrow> entry list option" where
  "parseLogBatch batch entries =
     (if int (length batch) < 12 then Some entries
      else parseLogBatch_loop batch 12 entries)"

subsection \<open>parseLogFile\<close>

text \<open>
  The \<open>while\<close> loop of \<open>parseLogFile\<close>, with \<open>offset\<close>, \<open>pendingRecord\<close> and \<open>entries\<close> as
  arguments. The result is \<open>None\<close> when a batch never finishes decoding, \<open>Some (Inl e)\<close>
  when the header read raises and \<open>Some (Inr entries)\<close> when the loop ends.
\<close>

function parseLogFile_loop ::
  "buffer \<Rightarrow> int \<Rightarrow> buffer list \<Rightarrow> entry list \<Rightarrow> (error + entry list) option" where
  "parseLogFile_loop data offset pendingRecord entries =
     (if offset < int (length data) then
        (let blockOffset = offset mod BLOCK_SIZE;
             remaining = BLOCK_SIZE - blockOffset
         in if remaining < 7 then
              parseLogFile_loop data (offset + remaining) pendingRecord entries
            else if offset + 7 > int (length data) then Some (Inr entries)
            else
              (case readUInt16LE data (offset + 4) of
                 Inl e \<Rightarrow> Some (Inl e)
               | Inr len \<Rightarrow>
              (let type = js_index data (offset + 6)
               in if len = 0 \<or> offset + 7 + len > int (length data) then
                    parseLogFile_loop data (offset + remaining) [] entries
                  else
                    (let recordData = subarray data (offset + 7) (offset + 7 + len);
                         offset' = offset + (7 + len)
                     in if type = Some LOG_RECORD_FULL then
                          (case parseLogBatch recordData entries of
                             None \<Rightarrow> None
                           | Some entries' \<Rightarrow> parseLogFile_loop data offset' [] entries')
                        else if type = Some LOG_RECORD_FIRST then
                          parseLogFile_loop data offset' [recordData] entries
                        else if type = Some LOG_RECORD_MIDDLE then
                          (if pendingRecord \<noteq> [] then
                             parseLogFile_loop data offset' (pendingRecord @ [recordData]) entries
                           else parseLogFile_loop data offset' pendingRecord entries)
                        else if type = Some LOG_RECORD_LAST then
                          (if pendingRecord \<noteq> [] then
                             (case parseLogBatch (concat (pendingRecord @ [recordData])) entries of
                                None \<Rightarrow> None
                              | Some entries' \<Rightarrow> parseLogFile_loop data offset' [] entries')
                           else parseLogFile_loop data offset' [] entries)
                        else parseLogFile_loop data offset' pendingRecord entries))))
      else Some (Inr entries))"
  by pat_completeness auto
termination
proof -
  have nonneg: "- 7 < uint a + 256 * uint b" for a b :: "8 word"
  proof -
    have "0 \<le> uint a" and "0 \<le> uint b" by simp_all
    then show ?thesis by linarith
  qed
  show ?thesis
    by (relation "measure (\<lambda>(data, offset, pendingRecord, entries). nat (int (length data) - offset))")
       (auto simp: BLOCK_SIZE_def readUInt16LE_def nonneg split: if_splits)
qed

definition parseLogFile :: "buffer option \<Rightarrow> (error + entry list) option" where
  "parseLogFile file =
     (case file of
        None \<Rightarrow> Some (Inr [])
      | Some data \<Rightarrow> parseLogFile_loop data 0 [] [])"

subsection \<open>readChromiumLevelDB and findKeysContaining\<close>

text \<open>
  The file system is a parameter: \<open>readdir\<close> gives the listing of a directory and
  \<open>readFile\<close> the bytes of a path, each \<open>None\<close> when the call throws. \<open>join\<close> is
  \<open>path.join\<close> for a directory path and a plain file name.
\<close>

record filesystem =
  readdir :: "string \<Rightarrow> string list option"
  readFile :: "string \<Rightarrow> buffer option"

definition join :: "string \<Rightarrow> string \<Rightarrow> string" where
  "join dir file = dir @ ''/'' @ file"

text \<open>
  The two \<open>for\<close> loops of \<open>readChromiumLevelDB\<close>. \<open>entries.push(...fileEntries)\<close> is
  outside any \<open>try\<close>: when it throws, the scan raises the error to its caller.
\<close>

fun parseSSTables ::
  "int \<Rightarrow> snappy \<Rightarrow> filesystem \<Rightarrow> string \<Rightarrow> string list \<Rightarrow> entry list
   \<Rightarrow> (error + entry list) option" where
  "parseSSTables argLimit snappyUncompress fs dir [] entries = Some (Inr entries)"
| "parseSSTables argLimit snappyUncompress fs dir (file # rest) entries =
     (case parseSSTable argLimit snappyUncompress (readFile fs (join dir file)) of
        None \<Rightarrow> None
      | Some (Inl e) \<Rightarrow> Some (Inl e)
      | Some (Inr fileEntries) \<Rightarrow>
          (case push_spread argLimit entries fileEntries of
             Inl e \<Rightarrow> Some (Inl e)
           | Inr entries' \<Rightarrow> parseSSTables argLimit snappyUncompress fs dir rest entries'))"

fun parseLogFiles ::
  "int \<Rightarrow> filesystem \<Rightarrow> string \<Rightarrow> string list \<Rightarrow> entry list \<Rightarrow> (error + entry list) option" where
  "parseLogFiles argLimit fs dir [] entries = Some (Inr entries)"
| "parseLogFiles argLimit fs dir (file # rest) entries =
     (case parseLogFile (readFile fs (join dir file)) of
        None \<Rightarrow> None
      | Some (Inl e) \<Rightarrow> Some (Inl e)
      | Some (Inr fileEntries) \<Rightarrow>
          (case push_spread argLimit entries fileEntries of
             Inl e \<Rightarrow> Some (Inl e)
           | Inr entries' \<Rightarrow> parseLogFiles argLimit fs dir rest entries'))"

definition readChromiumLevelDB ::
  "int \<Rightarrow> snappy \<Rightarrow> filesystem \<Rightarrow> string \<Rightarrow> (error + entry list) option" where
  "readChromiumLevelDB argLimit snappyUncompress fs dir =
     (case readdir fs dir of
        None \<Rightarrow> Some (Inr [])
      | Some files \<Rightarrow>
          (let sstFiles = filter (\<lambda>f. endsWith f ''.ldb'' \<or> endsWith f ''.sst'') files
           in case parseSSTables argLimit snappyUncompress fs dir sstFiles [] of
                None \<Rightarrow> None
              | Some (Inl e) \<Rightarrow> Some (Inl e)
              | Some (Inr entries) \<Rightarrow>
                  (let logFiles = filter (\<lambda>f. endsWith f ''.log'') files
                   in parseLogFiles argLimit fs dir logFiles entries)))"

definition findKeysContaining ::
  "int \<Rightarrow> snappy \<Rightarrow> filesystem \<Rightarrow> string \<Rightarrow> buffer \<Rightarrow> (error + entry list) option" where
  "findKeysContaining argLimit snappyUncompress fs dir substring =
     (case readChromiumLevelDB argLimit snappyUncompress fs dir of
        None \<Rightarrow> None
      | Some (Inl e) \<Rightarrow> Some (Inl e)
      | Some (Inr allEntries) \<Rightarrow>
          Some (Inr (filter (\<lambda>entry. buffer_includes (key entry) substring) allEntries)))"

section \<open>desktop.ts: decryptChromiumCookieValue\<close>

text \<open>
  A JavaScript string is a list of UTF-16 code units. The functions of \<open>node:crypto\<close>, the
  UTF-8 decoding of \<open>toString("utf8")\<close> and \<open>decodeURIComponent\<close> are parameters of the
  model: \<open>decipher key iv data\<close> is \<open>createDecipheriv("aes-128-cbc", key, iv)\<close> followed by
  \<open>update(data)\<close> and \<open>final()\<close>, and fails when they throw.
\<close>

type_synonym jsstring = "16 word list"

record platform =
  pbkdf2Sync :: "jsstring \<Rightarrow> buffer \<Rightarrow> nat \<Rightarrow> nat \<Rightarrow> buffer"
  decipher :: "buffer \<Rightarrow> buffer \<Rightarrow> buffer \<Rightarrow> error + buffer"
  toStringUtf8 :: "buffer \<Rightarrow> jsstring"
  decodeURIComponent :: "jsstring \<Rightarrow> error + jsstring"

definition marker :: buffer where
  "marker = [0x78, 0x6f, 0x78, 0x64, 0x2d]"

definition salt :: buffer where
  "salt = [0x73, 0x61, 0x6c, 0x74, 0x79, 0x73, 0x61, 0x6c, 0x74]"

definition v10 :: jsstring where "v10 = [0x76, 0x31, 0x30]"
definition v11 :: jsstring where "v11 = [0x76, 0x31, 0x31]"

text \<open>The \<open>while\<close> loop that extends \<open>end\<close> over printable ASCII bytes.\<close>

function token_end :: "buffer \<Rightarrow> int \<Rightarrow> int" where
  "token_end plain end =
     (if end < int (length plain) then
        (case js_index plain end of
           Some b \<Rightarrow> if b < 0x21 \<or> b > 0x7e then end else token_end plain (end + 1)
         | None \<Rightarrow> token_end plain (end + 1))
      else end)"
  by pat_completeness auto
termination
  by (relation "measure (\<lambda>(plain, end). nat (int (length plain) - end))") auto

text \<open>
  \<open>decryptChromiumCookieValue\<close>. \<open>token_of_plain\<close> is the code that follows the
  decryption: the search for the marker, the loop and the \<open>try\<close> around
  \<open>decodeURIComponent\<close>, whose \<open>catch\<close> returns the raw token.
\<close>

definition token_of_plain :: "platform \<Rightarrow> buffer \<Rightarrow> jsstring" where
  "token_of_plain pf plain =
     (let idx = indexOf plain marker
      in if idx = - 1 then toStringUtf8 pf plain
         else
           (let end = token_end plain idx;
                rawToken = toStringUtf8 pf (subarray plain idx end)
            in case decodeURIComponent pf rawToken of
                 Inl e \<Rightarrow> rawToken
               | Inr decoded \<Rightarrow> decoded))"

definition decryptChromiumCookieValue ::
  "platform \<Rightarrow> buffer \<Rightarrow> jsstring \<Rightarrow> error + jsstring" where
  "decryptChromiumCookieValue pf encrypted password =
     (if length encrypted = 0 then Inr []
      else
        (let prefix = toStringUtf8 pf (subarray encrypted 0 3);
             data = (if prefix = v10 \<or> prefix = v11
                     then subarray encrypted 3 (int (length encrypted)) else encrypted);
             iv = replicate 16 0x20;
             key = pbkdf2Sync pf password salt 1003 16
         in case decipher pf key iv data of
              Inl e \<Rightarrow> Inl e
            | Inr plain \<Rightarrow> Inr (token_of_plain pf plain)))"

section \<open>The encoders of the test suite\<close>

text \<open>
  \<open>encodeVarint\<close> of the tests, on the values the tests pass (lengths and offsets below
  \<open>2 ^ 32\<close>, where \<open>value & 0x7f\<close> is \<open>mod 128\<close> and \<open>value >>>= 7\<close> is \<open>div 128\<close>).
\<close>

function encodeVarint :: "nat \<Rightarrow> buffer" where
  "encodeVarint v =
     (if v > 0x7f then of_nat (v mod 128 + 128) # encodeVarint (v div 128) else [of_nat v])"
  by pat_completeness auto
termination
  by (relation "measure (\<lambda>v. v)") auto

text \<open>
  The operations of a write batch. A put is encoded as \<open>createTestLogFile\<close> encodes it;
  a delete has the layout the decoder reads for record type 0: the type byte, the varint key
  length and the key.
\<close>

datatype batch_op = Put buffer buffer | Delete buffer

fun encode_op :: "batch_op \<Rightarrow> buffer" where
  "encode_op (Put k v) =
     [0x01] @ encodeVarint (length k) @ k @ encodeVarint (length v) @ v"
| "encode_op (Delete k) = [0x00] @ encodeVarint (length k) @ k"

definition encode_ops :: "batch_op list \<Rightarrow> buffer" where
  "encode_ops ops = concat (map encode_op ops)"

fun puts :: "batch_op list \<Rightarrow> entry list" where
  "puts [] = []"
| "puts (Put k v # ops) = \<lparr>key = k, value = v\<rparr> # puts ops"
| "puts (Delete k # ops) = puts ops"

text \<open>
  A log record as \<open>createTestLogFile\<close> writes it, for a payload of at most 65535 bytes: a
  zero checksum, the payload length as a little-endian 16-bit field, the record type and the
  payload.
\<close>

definition logRecord :: "8 word \<Rightarrow> buffer \<Rightarrow> buffer" where
  "logRecord type payload =
     [0, 0, 0, 0, of_nat (length payload mod 256), of_nat (length payload div 256), type]
     @ payload"

text \<open>The four bytes \<open>writeUInt32LE\<close> stores for a value below \<open>2 ^ 32\<close>.\<close>

definition writeUInt32LE :: "nat \<Rightarrow> buffer" where
  "writeUInt32LE v =
     [of_nat (v mod 256), of_nat (v div 256 mod 256),
      of_nat (v div 65536 mod 256), of_nat (v div 16777216 mod 256)]"

text \<open>\<open>createTestLogFile\<close>: one FULL record holding a batch of puts with sequence number 1.\<close>

definition createTestLogFile :: "(buffer \<times> buffer) list \<Rightarrow> buffer" where
  "createTestLogFile entries =
     (let records = map (\<lambda>(k, v). encode_op (Put k v)) entries;
          sequence = [1, 0, 0, 0, 0, 0, 0, 0];
          count = writeUInt32LE (length entries);
          batchData = sequence @ count @ concat records
      in logRecord 0x01 batchData)"

text \<open>
  \<open>createTestSSTable\<close>: one uncompressed data block, an index block, an empty metaindex
  block and the footer.
\<close>

fun shared_prefix :: "buffer \<Rightarrow> buffer \<Rightarrow> nat" where
  "shared_prefix (a # as) (b # bs) = (if a = b then Suc (shared_prefix as bs) else 0)"
| "shared_prefix as bs = 0"

fun dataBlockEntries :: "buffer \<Rightarrow> (buffer \<times> buffer) list \<Rightarrow> buffer list" where
  "dataBlockEntries prevKey [] = []"
| "dataBlockEntries prevKey ((keyBuf, valueBuf) # rest) =
     (let shared = shared_prefix prevKey keyBuf;
          nonShared = length keyBuf - shared
      in (encodeVarint shared @ encodeVarint nonShared @ encodeVarint (length valueBuf)
          @ drop shared keyBuf @ valueBuf) # dataBlockEntries keyBuf rest)"

definition createTestSSTable :: "(buffer \<times> buffer) list \<Rightarrow> buffer" where
  "createTestSSTable entries =
     (let restarts = writeUInt32LE 0 @ writeUInt32LE 1;
          dataBlockContent = concat (dataBlockEntries [] entries) @ restarts;
          dataBlock = dataBlockContent @ [0, 0, 0, 0, 0];
          lastKey = (if entries = [] then [] else fst (last entries));
          blockHandle = encodeVarint 0 @ encodeVarint (length dataBlockContent);
          indexEntry = encodeVarint 0 @ encodeVarint (length lastKey)
                       @ encodeVarint (length blockHandle) @ lastKey @ blockHandle;
          indexBlockContent = indexEntry @ restarts;
          indexBlock = indexBlockContent @ [0, 0, 0, 0, 0];
          metaindexBlockContent = restarts;
          metaindexBlock = metaindexBlockContent @ [0, 0, 0, 0, 0];
          metaindexHandle = encodeVarint (length dataBlock + length indexBlock)
                            @ encodeVarint (length metaindexBlockContent);
          indexHandle = encodeVarint (length dataBlock) @ encodeVarint (length indexBlockContent);
          footerContent = metaindexHandle @ indexHandle;
          padding = replicate (40 - length footerContent) 0;
          footer = footerContent @ padding @ LEVELDB_MAGIC
      in dataBlock @ indexBlock @ metaindexBlock @ footer)"

section \<open>Notions used to state the properties\<close>

text \<open>
  An operation whose key and value lengths are below \<open>2 ^ 31\<close>, so that \<open>readVarint\<close>
  returns them as non-negative numbers.
\<close>

definition op_fits :: "batch_op \<Rightarrow> bool" where
  "op_fits op = (case op of Put k v \<Rightarrow> length k < 2 ^ 31 \<and> length v < 2 ^ 31
                          | Delete k \<Rightarrow> length k < 2 ^ 31)"

text \<open>
  A tail at which the batch decoder stops: the buffer is exhausted, the tag is unknown, or
  a varint of the record cannot be read (the key length, or the value length of a put whose
  key length is non-negative).
\<close>

definition batch_stops :: "buffer \<Rightarrow> bool" where
  "batch_stops tail =
     (case tail of
        [] \<Rightarrow> True
      | t # rest \<Rightarrow>
          if t = 1 then
            (case readVarint rest 0 of
               Inl e \<Rightarrow> True
             | Inr (keyLen, n1) \<Rightarrow>
                 0 \<le> keyLen \<and>
                 (case readVarint rest (n1 + keyLen) of Inl e \<Rightarrow> True | Inr r \<Rightarrow> False))
          else if t = 0 then
            (case readVarint rest 0 of Inl e \<Rightarrow> True | Inr r \<Rightarrow> False)
          else True)"

text \<open>The specification's notion of a key containing a pattern as a contiguous byte run.\<close>

definition contains_run :: "buffer \<Rightarrow> buffer \<Rightarrow> bool" where
  "contains_run buf pat = (\<exists>pre post. buf = pre @ pat @ post)"

text \<open>The printable ASCII range \<open>0x21..0x7E\<close>.\<close>

definition printable :: "8 word \<Rightarrow> bool" where
  "printable b = (0x21 \<le> b \<and> b \<le> 0x7e)"

text \<open>
  A directory used in the examples: a log file listed before a table file, each holding one
  put, and a file that is neither. The table holds no compressed block, so the decompressor
  is never called.
\<close>

definition example_log :: buffer where
  "example_log =
     [0, 0, 0, 0, 17, 0, 1, 1, 0, 0, 0, 0, 0, 0, 0, 1, 0, 0, 0, 1, 1, 108, 1, 49]"

definition example_table :: buffer where
  "example_table =
     [0, 1, 1, 115, 50, 0, 0, 0, 0, 1, 0, 0, 0, 0, 0, 0, 0, 0, 0, 1, 2, 115, 0,
      13, 0, 0, 0, 0, 1, 0, 0, 0, 0, 0, 0, 0, 0, 0, 0, 0, 0, 1, 0, 0, 0, 0, 0,
      0, 0, 0, 37, 8, 18, 14, 0, 0, 0, 0, 0, 0, 0, 0, 0, 0, 0, 0, 0, 0, 0, 0, 0,
      0, 0, 0, 0, 0, 0, 0, 0, 0, 0, 0, 0, 0, 0, 0, 0, 0, 0, 0, 87, 251, 128,
      139, 36, 117, 71, 219]"

definition example_fs :: filesystem where
  "example_fs =
     \<lparr>readdir = (\<lambda>dir. if dir = ''db'' then Some [''000003.log'', ''000005.ldb'', ''CURRENT'']
                         else None),
      readFile = (\<lambda>path. if path = ''db/000003.log'' then Some example_log
                           else if path = ''db/000005.ldb'' then Some example_table
                           else None)\<rparr>"

definition no_snappy :: snappy where
  "no_snappy compressed uncompressedLength = Inl SnappyFailure"

text \<open>
  \<open>decodeURIComponent\<close> as ECMAScript defines it: the abstract operation \<open>Decode\<close> with no
  preserved escape. A \<open>%\<close> must be followed by two hexadecimal digits. An escaped octet
  below \<open>0x80\<close> is the code unit of that value; any other escaped octet must start a
  sequence of two to four escaped octets that is the UTF-8 encoding of a code point, which is
  appended in UTF-16. Everything else throws a \<open>URIError\<close>.
\<close>

definition hexDigit :: "16 word \<Rightarrow> int option" where
  "hexDigit c =
     (if 0x30 \<le> c \<and> c \<le> 0x39 then Some (uint c - 0x30)
      else if 0x41 \<le> c \<and> c \<le> 0x46 then Some (uint c - 0x41 + 10)
      else if 0x61 \<le> c \<and> c \<le> 0x66 then Some (uint c - 0x61 + 10)
      else None)"

definition parseHexOctet :: "jsstring \<Rightarrow> int option" where
  "parseHexOctet s =
     (case s of
        h # l # rest \<Rightarrow>
          (case hexDigit h of
             None \<Rightarrow> None
           | Some a \<Rightarrow> (case hexDigit l of None \<Rightarrow> None | Some b \<Rightarrow> Some (16 * a + b)))
      | _ \<Rightarrow> None)"

fun continuationOctets :: "nat \<Rightarrow> jsstring \<Rightarrow> int list option" where
  "continuationOctets 0 s = Some []"
| "continuationOctets (Suc j) s =
     (case s of
        [] \<Rightarrow> None
      | p # rest \<Rightarrow>
          if p = 0x25 then
            (case parseHexOctet rest of
               None \<Rightarrow> None
             | Some b \<Rightarrow> map_option ((#) b) (continuationOctets j (drop 2 rest)))
          else None)"

definition continuation :: "int \<Rightarrow> bool" where
  "continuation b = (0x80 \<le> b \<and> b \<le> 0xBF)"

definition utf8CodePoint :: "int list \<Rightarrow> int option" where
  "utf8CodePoint octets =
     (case octets of
        [b0, b1] \<Rightarrow>
          if 0xC2 \<le> b0 \<and> b0 \<le> 0xDF \<and> continuation b1
          then Some ((b0 - 0xC0) * 0x40 + (b1 - 0x80)) else None
      | [b0, b1, b2] \<Rightarrow>
          if 0xE0 \<le> b0 \<and> b0 \<le> 0xEF \<and> continuation b1 \<and> continuation b2 \<and>
             (b0 = 0xE0 \<longrightarrow> 0xA0 \<le> b1) \<and> (b0 = 0xED \<longrightarrow> b1 \<le> 0x9F)
          then Some ((b0 - 0xE0) * 0x1000 + (b1 - 0x80) * 0x40 + (b2 - 0x80)) else None
      | [b0, b1, b2, b3] \<Rightarrow>
          if 0xF0 \<le> b0 \<and> b0 \<le> 0xF4 \<and> continuation b1 \<and> continuation b2 \<and> continuation b3 \<and>
             (b0 = 0xF0 \<longrightarrow> 0x90 \<le> b1) \<and> (b0 = 0xF4 \<longrightarrow> b1 \<le> 0x8F)
          then Some ((b0 - 0xF0) * 0x40000 + (b1 - 0x80) * 0x1000 + (b2 - 0x80) * 0x40
                     + (b3 - 0x80))
          else None
      | _ \<Rightarrow> None)"

definition UTF16EncodeCodePoint :: "int \<Rightarrow> jsstring" where
  "UTF16EncodeCodePoint cp =
     (if cp \<le> 0xFFFF then [word_of_int cp]
      else [word_of_int ((cp - 0x10000) div 0x400 + 0xD800),
            word_of_int ((cp - 0x10000) mod 0x400 + 0xDC00)])"

function Decode :: "jsstring \<Rightarrow> jsstring \<Rightarrow> error + jsstring" where
  "Decode [] R = Inr R"
| "Decode (C # rest) R =
     (if C \<noteq> 0x25 then Decode rest (R @ [C])
      else
        (case parseHexOctet rest of
           None \<Rightarrow> Inl URIError
         | Some B \<Rightarrow>
             if B < 0x80 then Decode (drop 2 rest) (R @ [word_of_int B])
             else if B < 0xC0 \<or> 0xF8 \<le> B then Inl URIError
             else
               (let n = (if B < 0xE0 then 2 else if B < 0xF0 then 3 else 4)
                in case continuationOctets (n - 1) (drop 2 rest) of
                     None \<Rightarrow> Inl URIError
                   | Some octets \<Rightarrow>
                       (case utf8CodePoint (B # octets) of
                          None \<Rightarrow> Inl URIError
                        | Some V \<Rightarrow>
                            Decode (drop (2 + 3 * (n - 1)) rest) (R @ UTF16EncodeCodePoint V)))))"
  by pat_completeness auto
termination
  by (relation "measure (\<lambda>(s, R). length s)") auto

text \<open>
  A platform used in the examples to instantiate the parameters of
  \<open>decryptChromiumCookieValue\<close>: the key derivation returns zero bytes, the cipher returns
  its input, \<open>decodeURIComponent\<close> is the operation above, and the examples hold only bytes
  below \<open>0x80\<close>, which UTF-8 decoding maps to the code unit of the same value.
\<close>

definition example_platform :: platform where
  "example_platform =
     \<lparr>pbkdf2Sync = (\<lambda>password salt iterations keylen. replicate keylen 0),
      decipher = (\<lambda>key iv data. Inr data),
      toStringUtf8 = map ucast,
      decodeURIComponent = (\<lambda>s. Decode s [])\<rparr>"

text \<open>
  An entry of a data block as the decoder reads it and as \<open>createTestSSTable\<close> lays it out,
  with the shared length given explicitly: the three varints, the key suffix and the value.
\<close>

definition encode_block_entry :: "nat \<times> buffer \<times> buffer \<Rightarrow> buffer" where
  "encode_block_entry t =
     (case t of (shared, delta, v) \<Rightarrow>
        encodeVarint shared @ encodeVarint (length delta) @ encodeVarint (length v) @ delta @ v)"

definition entry_fits :: "nat \<times> buffer \<times> buffer \<Rightarrow> bool" where
  "entry_fits t =
     (case t of (shared, delta, v) \<Rightarrow> shared < 2 ^ 31 \<and> length delta < 2 ^ 31 \<and> length v < 2 ^ 31)"

text \<open>
  The reconstruction the specification states: each key is the first \<open>shared\<close> bytes of the
  previous key followed by the suffix. Slicing takes the whole previous key when \<open>shared\<close>
  exceeds its length.
\<close>

fun spec_reconstruct :: "buffer \<Rightarrow> (nat \<times> buffer \<times> buffer) list \<Rightarrow> entry list" where
  "spec_reconstruct previousKey [] = []"
| "spec_reconstruct previousKey ((shared, delta, v) # rest) =
     \<lparr>key = take shared previousKey @ delta, value = v\<rparr>
     # spec_reconstruct (take shared previousKey @ delta) rest"

section \<open>Code equations for the partial loops\<close>

lemma parseLogBatch_loop_code [code]:
  "parseLogBatch_loop batch offset entries =
     (if offset < int (length batch) then
        (let r = parseLogBatch_record batch offset entries
         in if isl r then Some entries
            else if projr r = None then Some entries
            else parseLogBatch_loop batch (fst (the (projr r))) (snd (the (projr r))))
      else Some entries)"
  by (subst parseLogBatch_loop.simps) (auto simp: Let_def split: sum.splits option.splits)

lemma parseDataBlock_loop_code [code]:
  "parseDataBlock_loop block restartsStart offset prevKey entries =
     (if offset < restartsStart then
        (let r = parseDataBlock_entry block restartsStart offset prevKey
         in if isl r then Some entries
            else if projr r = None then Some entries
            else parseDataBlock_loop block restartsStart (fst (the (projr r)))
                   (snd (snd (the (projr r)))) (entries @ [fst (snd (the (projr r)))]))
      else Some entries)"
  by (subst parseDataBlock_loop.simps) (auto simp: Let_def split: sum.splits option.splits)

section \<open>Helper lemmas on words\<close>

lemma mask7: "(0x7f :: 'a::len word) = mask 7"
  by (simp add: mask_eq_exp_minus_1)

lemma ucast_and_7f: "(ucast (b::8 word) :: 32 word) AND 0x7f = ucast (b AND 0x7f)"
  unfolding mask7 by (rule bit_word_eqI) (auto simp: bit_simps)

lemma bit_low7: "bit ((ucast (b::8 word) :: 32 word) AND 0x7f) n \<Longrightarrow> n < 7"
  unfolding mask7 by (auto simp: bit_simps)

lemma bit_take_bit_self:
  fixes r :: "32 word"
  assumes "take_bit s r = r" "bit r n"
  shows "n < s"
proof -
  from assms have "bit (take_bit s r) n" by simp
  then show ?thesis by (simp add: bit_simps)
qed

lemma take_bit_or_push_bit_gen:
  fixes r y :: "32 word"
  assumes "take_bit s r = r" "\<And>n. bit y n \<Longrightarrow> n < 7"
  shows "take_bit (s + 7) (r OR push_bit s y) = r OR push_bit s y"
proof (rule bit_word_eqI)
  fix n assume "n < LENGTH(32)"
  show "bit (take_bit (s + 7) (r OR push_bit s y)) n = bit (r OR push_bit s y) n"
    using bit_take_bit_self[OF assms(1), of n] assms(2)[of "n - s"]
    by (auto simp: bit_take_bit_iff bit_or_iff bit_push_bit_iff)
qed

lemma or_push_bit_gen:
  fixes r y :: "32 word"
  assumes "take_bit s r = r"
  shows "r OR push_bit s y = r + push_bit s y"
proof -
  have disj: "\<And>n. \<not> bit r n \<or> \<not> bit (push_bit s y) n"
    using bit_take_bit_self[OF assms] by (fastforce simp: bit_push_bit_iff)
  show ?thesis
    using disj by (simp add: disjunctive_add)
qed

lemma take_bit_or_push_bit:
  fixes r :: "32 word" and b :: "8 word"
  assumes "take_bit s r = r"
  shows "take_bit (s + 7) (r OR push_bit s ((ucast b :: 32 word) AND 0x7f)) = r OR push_bit s ((ucast b :: 32 word) AND 0x7f)"
  using assms bit_low7 by (rule take_bit_or_push_bit_gen)

lemma or_push_bit_eq:
  fixes r :: "32 word" and b :: "8 word"
  assumes "take_bit s r = r"
  shows "r OR push_bit s ((ucast b :: 32 word) AND 0x7f) = r + word_of_nat (2 ^ s * unat (b AND 0x7f))"
proof -
  have "push_bit s ((ucast b :: 32 word) AND 0x7f) = word_of_nat (2 ^ s * unat (b AND 0x7f))"
    unfolding ucast_and_7f by (simp add: push_bit_eq_mult)
  then show ?thesis using or_push_bit_gen[OF assms, of "(ucast b :: 32 word) AND 0x7f"] by simp
qed

declare readVarint64_loop.simps [simp del]
declare readVarint_loop.simps [simp del]
declare parseLogFile_loop.simps [simp del]
declare token_end.simps [simp del]
declare encodeVarint.simps [simp del]






section \<open>Varints written by the test encoder are read back\<close>

lemma ucast_and_0x80: "((ucast (b::8 word) :: 32 word) AND 0x80 = 0) = (\<not> bit b 7)"
proof -
  have "(0x80 :: 32 word) = 2 ^ 7" by simp
  then have "((ucast b :: 32 word) AND 0x80 = 0) = (\<not> bit (ucast b :: 32 word) 7)"
    by (simp only: and_exp_eq_0_iff_not_bit)
  then show ?thesis by (simp add: bit_ucast_iff)
qed

lemma bit7_of_nat: "bit (of_nat k :: 8 word) 7 = odd (k div 128)"
  unfolding bit_of_nat_iff by (simp add: bit_iff_odd)

lemma unat_and_7f_of_nat: "unat ((of_nat k :: 8 word) AND 0x7f) = k mod 128"
proof -
  have "unat ((of_nat k :: 8 word) AND mask 7) = take_bit 7 (unat (of_nat k :: 8 word))"
    by (simp flip: take_bit_eq_mask add: unsigned_take_bit_eq)
  also have "\<dots> = (k mod 256) mod 128"
    by (simp add: unat_of_nat take_bit_eq_mod)
  also have "\<dots> = k mod 128"
    by (rule mod_mod_cancel) simp
  finally show ?thesis by (simp add: mask7)
qed

lemma drop_Cons_facts:
  assumes "drop (nat i) buf = x # xs" "0 \<le> i"
  shows "i < int (length buf)" "js_index buf i = Some x" "drop (nat (i + 1)) buf = xs"
proof -
  have l: "nat i < length buf"
    using assms(1) by (metis drop_all list.distinct(1) not_le)
  then show "i < int (length buf)" using assms(2) by simp
  have "buf ! nat i = x" using assms(1) by (rule nth_via_drop)
  then show "js_index buf i = Some x" using l assms(2) by (simp add: js_index_def)
  have "drop (Suc (nat i)) buf = xs"
    using assms(1) by (metis drop_Suc tl_drop list.sel(3))
  moreover have "nat (i + 1) = Suc (nat i)" using assms(2) by simp
  ultimately show "drop (nat (i + 1)) buf = xs" by simp
qed

lemma readVarint_loop_encode:
  assumes "drop (nat (off + k)) buf = encodeVarint n @ post" "0 \<le> off + k"
    "take_bit s r = r" "n < 2 ^ (35 - s)" "s < 35"
  shows "readVarint_loop buf off r s k
         = Inr (sint (r + word_of_nat (2 ^ s * n)), k + int (length (encodeVarint n)))"
  using assms
proof (induction n arbitrary: r s k rule: encodeVarint.induct)
  case (1 v)
  let ?b = "hd (encodeVarint v)"
  let ?r = "r OR push_bit s ((ucast ?b :: 32 word) AND 0x7f)"
  obtain rest where enc: "encodeVarint v = ?b # rest"
    by (cases "encodeVarint v") (auto simp: encodeVarint.simps[of v] split: if_splits)
  from "1.prems"(1) have d: "drop (nat (off + k)) buf = ?b # (rest @ post)"
    using enc by simp
  note f = drop_Cons_facts[OF d "1.prems"(2)]
  have len: "int (length (encodeVarint v)) = 1 + int (length rest)"
    by (subst enc) simp
  have byte: "to_int32 (js_index buf (off + k)) = ucast ?b"
    using f(2) by (simp add: to_int32_def)
  show ?case
  proof (cases "v > 0x7f")
    case True
    then have b: "?b = of_nat (v mod 128 + 128)" and r: "rest = encodeVarint (v div 128)"
      using enc by (simp_all add: encodeVarint.simps[of v])
    have "(v mod 128 + 128) div 128 = v mod 128 div 128 + 1"
      by (rule div_add_self2) simp
    then have "(v mod 128 + 128) div 128 = 1" by simp
    then have hi: "(ucast ?b :: 32 word) AND 0x80 \<noteq> 0"
      unfolding b ucast_and_0x80 bit7_of_nat by simp
    have lo: "unat (?b AND 0x7f) = v mod 128"
      unfolding b unat_and_7f_of_nat by simp
    have r_eq: "?r = r + word_of_nat (2 ^ s * (v mod 128))"
      using or_push_bit_eq[OF "1.prems"(3), of ?b] lo by simp
    have r_tb: "take_bit (s + 7) ?r = ?r"
      by (rule take_bit_or_push_bit[OF "1.prems"(3)])
    have s28: "s + 7 < 35"
    proof (rule ccontr)
      assume "\<not> s + 7 < 35"
      then have "35 - s \<le> 7" by simp
      then have "(2::nat) ^ (35 - s) \<le> 2 ^ 7" by (intro power_increasing) simp_all
      with "1.prems"(4) True show False by simp
    qed
    have vdiv: "v div 128 < 2 ^ (35 - (s + 7))"
    proof -
      have "(2::nat) ^ (35 - s) = 128 * 2 ^ (35 - (s + 7))"
      proof -
        have "35 - s = 7 + (35 - (s + 7))" using s28 by simp
        then have "(2::nat) ^ (35 - s) = 2 ^ 7 * 2 ^ (35 - (s + 7))"
          by (simp only: power_add)
        then show ?thesis by simp
      qed
      with "1.prems"(4) show ?thesis by (simp add: less_mult_imp_div_less mult.commute)
    qed
    have d': "drop (nat (off + (k + 1))) buf = encodeVarint (v div 128) @ post"
      using f(3) r by (simp add: add.assoc)
    have k': "0 \<le> off + (k + 1)" using "1.prems"(2) by simp
    have IH: "readVarint_loop buf off ?r (s + 7) (k + 1)
        = Inr (sint (?r + word_of_nat (2 ^ (s + 7) * (v div 128))),
               k + 1 + int (length (encodeVarint (v div 128))))"
      by (rule "1.IH"[OF True d' k' r_tb vdiv s28])
    have val: "?r + word_of_nat (2 ^ (s + 7) * (v div 128)) = r + word_of_nat (2 ^ s * v)"
    proof -
      have "2 ^ s * (v mod 128) + 2 ^ (s + 7) * (v div 128) = 2 ^ s * v"
        by (simp add: power_add algebra_simps flip: distrib_left)
      then show ?thesis unfolding r_eq
        by (metis (no_types, lifting) add.assoc of_nat_add)
    qed
    have step: "readVarint_loop buf off r s k = readVarint_loop buf off ?r (s + 7) (k + 1)"
      using f(1) hi s28 unfolding readVarint_loop.simps[of buf off r s k] byte
      by (simp add: Let_def)
    show ?thesis unfolding step IH val len r by simp
  next
    case False
    then have b: "?b = of_nat v" and r: "rest = []"
      using enc by (simp_all add: encodeVarint.simps[of v])
    have "v div 128 = 0" using False by simp
    then have hi: "(ucast ?b :: 32 word) AND 0x80 = 0"
      unfolding b ucast_and_0x80 bit7_of_nat by simp
    have lo: "unat (?b AND 0x7f) = v"
      unfolding b unat_and_7f_of_nat using False by simp
    have r_eq: "?r = r + word_of_nat (2 ^ s * v)"
      using or_push_bit_eq[OF "1.prems"(3), of ?b] lo by simp
    have step: "readVarint_loop buf off r s k = Inr (sint ?r, k + 1)"
      using f(1) hi unfolding readVarint_loop.simps[of buf off r s k] byte
      by (simp add: Let_def)
    show ?thesis unfolding step r_eq len r by simp
  qed
qed

lemma readVarint_encodeVarint:
  assumes "drop (nat off) buf = encodeVarint n @ post" "0 \<le> off" "n < 2 ^ 31"
  shows "readVarint buf off = Inr (int n, int (length (encodeVarint n)))"
proof -
  have n35: "n < 2 ^ (35 - 0)" using assms(3) by simp
  have "readVarint_loop buf off 0 0 0
         = Inr (sint (0 + word_of_nat (2 ^ 0 * n) :: 32 word), 0 + int (length (encodeVarint n)))"
    by (rule readVarint_loop_encode) (use assms n35 in simp_all)
  moreover have "sint (word_of_nat n :: 32 word) = int n"
    using assms(3) by (simp add: signed_of_nat signed_take_bit_int_eq_self)
  ultimately show ?thesis by (simp add: readVarint_def)
qed

lemma subarray_nonneg:
  assumes "0 \<le> i" "i \<le> j"
  shows "subarray buf i j = take (nat (j - i)) (drop (nat i) buf)"
proof (cases "i \<le> int (length buf)")
  case True
  have ci: "clamp_index buf i = nat i" using assms True by (simp add: clamp_index_def min_def)
  have cj: "clamp_index buf j = min (nat j) (length buf)"
    using assms by (auto simp: clamp_index_def min_def)
  have "take (min (nat j) (length buf) - nat i) (drop (nat i) buf)
        = take (nat (j - i)) (drop (nat i) buf)"
  proof (cases "nat j \<le> length buf")
    case True
    then show ?thesis using assms by (simp add: min_def nat_diff_distrib)
  next
    case False
    then have "length (drop (nat i) buf) \<le> nat (j - i)" using assms by simp
    moreover have "length (drop (nat i) buf) \<le> min (nat j) (length buf) - nat i"
      using False by (simp add: min_def)
    ultimately show ?thesis by simp
  qed
  then show ?thesis by (simp add: subarray_def ci cj)
next
  case False
  then have "drop (nat i) buf = []" by simp
  moreover have "clamp_index buf i = length buf" using False assms by (simp add: clamp_index_def min_def)
  ultimately show ?thesis by (simp add: subarray_def)
qed

lemma drop_append_step:
  assumes "drop (nat i) buf = xs @ rest" "0 \<le> i"
  shows "drop (nat (i + int (length xs))) buf = rest"
proof -
  have "nat (i + int (length xs)) = length xs + nat i" using assms(2) by simp
  then have "drop (nat (i + int (length xs))) buf = drop (length xs) (drop (nat i) buf)"
    by (simp only: drop_drop)
  then show ?thesis using assms(1) by simp
qed

lemma subarray_prefix:
  assumes "drop (nat i) buf = xs @ rest" "0 \<le> i"
  shows "subarray buf i (i + int (length xs)) = xs"
  using assms by (simp add: subarray_nonneg)

lemma parseLogBatch_record_Put:
  assumes d: "drop (nat off) batch = encode_op (Put k v) @ rest" and off: "0 \<le> off"
    and k: "length k < 2 ^ 31" and v: "length v < 2 ^ 31"
  shows "parseLogBatch_record batch off entries
         = Inr (Some (off + int (length (encode_op (Put k v))), entries @ [\<lparr>key = k, value = v\<rparr>]))"
proof -
  let ?l1 = "int (length (encodeVarint (length k)))"
  let ?l2 = "int (length (encodeVarint (length v)))"
  from d have d0: "drop (nat off) batch
      = 1 # (encodeVarint (length k) @ (k @ encodeVarint (length v) @ v @ rest))" by simp
  note f = drop_Cons_facts[OF d0 off]
  have o1: "0 \<le> off + 1" using off by simp
  have rv1: "readVarint batch (off + 1) = Inr (int (length k), ?l1)"
    by (rule readVarint_encodeVarint[OF f(3) o1 k])
  have o2: "0 \<le> off + 1 + ?l1" using off by simp
  have d2: "drop (nat (off + 1 + ?l1)) batch = k @ (encodeVarint (length v) @ v @ rest)"
    by (rule drop_append_step[OF f(3) o1])
  have key: "subarray batch (off + 1 + ?l1) (off + 1 + ?l1 + int (length k)) = k"
    by (rule subarray_prefix[OF d2 o2])
  have o3: "0 \<le> off + 1 + ?l1 + int (length k)" using off by simp
  have d3: "drop (nat (off + 1 + ?l1 + int (length k))) batch = encodeVarint (length v) @ (v @ rest)"
    by (rule drop_append_step[OF d2 o2])
  have rv2: "readVarint batch (off + 1 + ?l1 + int (length k)) = Inr (int (length v), ?l2)"
    by (rule readVarint_encodeVarint[OF d3 o3 v])
  have o4: "0 \<le> off + 1 + ?l1 + int (length k) + ?l2" using off by simp
  have d4: "drop (nat (off + 1 + ?l1 + int (length k) + ?l2)) batch = v @ rest"
    by (rule drop_append_step[OF d3 o3])
  have val: "subarray batch (off + 1 + ?l1 + int (length k) + ?l2)
               (off + 1 + ?l1 + int (length k) + ?l2 + int (length v)) = v"
    by (rule subarray_prefix[OF d4 o4])
  show ?thesis
    unfolding parseLogBatch_record_def Let_def f(2) rv1 rv2 sum.case prod.case key val
    by simp
qed

lemma parseLogBatch_record_Delete:
  assumes d: "drop (nat off) batch = encode_op (Delete k) @ rest" and off: "0 \<le> off"
    and k: "length k < 2 ^ 31"
  shows "parseLogBatch_record batch off entries
         = Inr (Some (off + int (length (encode_op (Delete k))), entries))"
proof -
  from d have d0: "drop (nat off) batch = 0 # (encodeVarint (length k) @ (k @ rest))" by simp
  note f = drop_Cons_facts[OF d0 off]
  have o1: "0 \<le> off + 1" using off by simp
  have rv1: "readVarint batch (off + 1)
             = Inr (int (length k), int (length (encodeVarint (length k))))"
    by (rule readVarint_encodeVarint[OF f(3) o1 k])
  show ?thesis
    unfolding parseLogBatch_record_def Let_def f(2) rv1 sum.case prod.case
    by simp
qed

lemma parseLogBatch_record_op:
  assumes "drop (nat off) batch = encode_op op @ rest" "0 \<le> off" "op_fits op"
  shows "parseLogBatch_record batch off entries
         = Inr (Some (off + int (length (encode_op op)), entries @ puts [op]))"
proof (cases op)
  case (Put k v)
  then show ?thesis
    using parseLogBatch_record_Put[of off batch k v rest entries] assms
    by (simp add: op_fits_def)
next
  case (Delete k)
  then show ?thesis
    using parseLogBatch_record_Delete[of off batch k rest entries] assms
    by (simp add: op_fits_def)
qed

lemma puts_append: "puts (xs @ ys) = puts xs @ puts ys"
  by (induction xs rule: puts.induct) simp_all

lemma parseLogBatch_loop_exit:
  "\<not> offset < int (length batch) \<Longrightarrow> parseLogBatch_loop batch offset entries = Some entries"
  by (subst parseLogBatch_loop.simps) simp

lemma parseLogBatch_loop_throw:
  "offset < int (length batch) \<Longrightarrow> parseLogBatch_record batch offset entries = Inl e
   \<Longrightarrow> parseLogBatch_loop batch offset entries = Some entries"
  by (subst parseLogBatch_loop.simps) simp

lemma parseLogBatch_loop_break:
  "offset < int (length batch) \<Longrightarrow> parseLogBatch_record batch offset entries = Inr None
   \<Longrightarrow> parseLogBatch_loop batch offset entries = Some entries"
  by (subst parseLogBatch_loop.simps) simp

lemma parseLogBatch_loop_step:
  "offset < int (length batch)
   \<Longrightarrow> parseLogBatch_record batch offset entries = Inr (Some (offset', entries'))
   \<Longrightarrow> parseLogBatch_loop batch offset entries = parseLogBatch_loop batch offset' entries'"
  by (subst parseLogBatch_loop.simps) simp

lemma parseLogBatch_loop_ops:
  assumes "drop (nat off) batch = encode_ops ops @ tail" "0 \<le> off" "\<forall>op\<in>set ops. op_fits op"
  shows "parseLogBatch_loop batch off entries
         = parseLogBatch_loop batch (off + int (length (encode_ops ops))) (entries @ puts ops)"
  using assms
proof (induction ops arbitrary: off entries)
  case Nil
  then show ?case by (simp add: encode_ops_def)
next
  case (Cons op ops)
  have d: "drop (nat off) batch = encode_op op @ (encode_ops ops @ tail)"
    using Cons.prems(1) by (simp add: encode_ops_def)
  have fits: "op_fits op" using Cons.prems(3) by simp
  have ne: "encode_op op \<noteq> []" by (cases op) simp_all
  have lt: "off < int (length batch)"
  proof (rule ccontr)
    assume "\<not> off < int (length batch)"
    then have "drop (nat off) batch = []" using Cons.prems(2) by simp
    with d ne show False by simp
  qed
  have rec: "parseLogBatch_record batch off entries
             = Inr (Some (off + int (length (encode_op op)), entries @ puts [op]))"
    by (rule parseLogBatch_record_op[OF d Cons.prems(2) fits])
  have d': "drop (nat (off + int (length (encode_op op)))) batch = encode_ops ops @ tail"
    by (rule drop_append_step[OF d Cons.prems(2)])
  have o': "0 \<le> off + int (length (encode_op op))" using Cons.prems(2) by simp
  have fits': "\<forall>op\<in>set ops. op_fits op" using Cons.prems(3) by simp
  have "parseLogBatch_loop batch off entries
        = parseLogBatch_loop batch (off + int (length (encode_op op))) (entries @ puts [op])"
    by (rule parseLogBatch_loop_step[OF lt rec])
  also have "\<dots> = parseLogBatch_loop batch
        (off + int (length (encode_op op)) + int (length (encode_ops ops)))
        ((entries @ puts [op]) @ puts ops)"
    by (rule Cons.IH[OF d' o' fits'])
  also have "(entries @ puts [op]) @ puts ops = entries @ puts (op # ops)"
    using puts_append[of "[op]" ops] by simp
  also have "off + int (length (encode_op op)) + int (length (encode_ops ops))
             = off + int (length (encode_ops (op # ops)))"
    by (simp add: encode_ops_def)
  finally show ?case .
qed

lemma js_index_append:
  "0 \<le> i \<Longrightarrow> js_index (pre @ buf) (int (length pre) + i) = js_index buf i"
  by (simp add: js_index_def nth_append nat_add_distrib)

lemma readVarint_loop_append:
  "0 \<le> off + k \<Longrightarrow>
   readVarint_loop (pre @ buf) (int (length pre) + off) r s k = readVarint_loop buf off r s k"
proof (induction buf off r s k rule: readVarint_loop.induct)
  case (1 buf offset result shift bytesRead)
  have idx: "js_index (pre @ buf) (int (length pre) + offset + bytesRead)
             = js_index buf (offset + bytesRead)"
    using js_index_append[OF "1.prems", of pre buf] by (simp add: add.assoc)
  have k: "0 \<le> offset + (bytesRead + 1)" using "1.prems" by simp
  show ?case
    unfolding readVarint_loop.simps[of "pre @ buf" "int (length pre) + offset" result shift bytesRead]
      readVarint_loop.simps[of buf offset result shift bytesRead] idx
    using "1.IH"[OF _ refl refl refl _ refl _ k]
    by (simp add: Let_def)
qed

lemma readVarint_drop:
  assumes "0 \<le> p" "0 \<le> off" "nat p \<le> length batch"
  shows "readVarint batch (p + off) = readVarint (drop (nat p) batch) off"
proof -
  have "readVarint_loop (take (nat p) batch @ drop (nat p) batch)
          (int (length (take (nat p) batch)) + off) 0 0 0
        = readVarint_loop (drop (nat p) batch) off 0 0 0"
    by (rule readVarint_loop_append) (use assms in simp)
  moreover have "int (length (take (nat p) batch)) = p" using assms by simp
  ultimately show ?thesis by (simp add: readVarint_def)
qed

lemma readVarint_loop_bytesRead:
  "readVarint_loop buf off r s k = Inr (v, n) \<Longrightarrow> k < n"
proof (induction buf off r s k rule: readVarint_loop.induct)
  case (1 buf offset result shift bytesRead)
  from "1.prems" show ?case
    unfolding readVarint_loop.simps[of buf offset result shift bytesRead]
    using "1.IH"[OF _ refl refl refl _ refl]
    by (auto simp: Let_def split: if_splits)
qed

lemma readVarint_bytesRead: "readVarint buf off = Inr (v, n) \<Longrightarrow> 0 < n"
  unfolding readVarint_def by (rule readVarint_loop_bytesRead)

lemma parseLogBatch_loop_stops:
  assumes d: "drop (nat p) batch = tail" and p: "0 \<le> p" and stops: "batch_stops tail"
  shows "parseLogBatch_loop batch p entries = Some entries"
proof (cases tail)
  case Nil
  then have "\<not> p < int (length batch)" using d p by simp
  then show ?thesis by (rule parseLogBatch_loop_exit)
next
  case (Cons t rest)
  note f = drop_Cons_facts[OF d[unfolded Cons] p]
  have p1: "0 \<le> p + 1" using p by simp
  have le: "nat (p + 1) \<le> length batch" using f(1) p by simp
  have rv: "readVarint batch (p + 1 + off) = readVarint rest off" if "0 \<le> off" for off
    using readVarint_drop[OF p1 that le] f(3) by simp
  have "parseLogBatch_record batch p entries = Inr None
        \<or> (\<exists>e. parseLogBatch_record batch p entries = Inl e)"
  proof (cases "t = 1")
    case True
    show ?thesis
    proof (cases "readVarint rest 0")
      case (Inl e)
      then have "readVarint batch (p + 1) = Inl e" using rv[of 0] by simp
      then show ?thesis using True f(2) by (simp add: parseLogBatch_record_def)
    next
      case (Inr r)
      obtain keyLen n1 where r: "r = (keyLen, n1)" by (cases r)
      have n1: "0 < n1" using Inr r readVarint_bytesRead by simp
      from stops Cons True Inr r have kl: "0 \<le> keyLen"
        and fail: "\<exists>e. readVarint rest (n1 + keyLen) = Inl e"
        by (auto simp: batch_stops_def split: sum.splits)
      then obtain e where e: "readVarint rest (n1 + keyLen) = Inl e" by blast
      have "readVarint batch (p + 1 + (n1 + keyLen)) = Inl e"
        using rv[of "n1 + keyLen"] n1 kl e by simp
      moreover have "readVarint batch (p + 1) = Inr (keyLen, n1)"
        using rv[of 0] Inr r by simp
      ultimately show ?thesis using True f(2)
        by (simp add: parseLogBatch_record_def Let_def add.assoc)
    qed
  next
    case False
    show ?thesis
    proof (cases "t = 0")
      case True
      with stops Cons obtain e where "readVarint rest 0 = Inl e"
        by (auto simp: batch_stops_def split: sum.splits)
      then have "readVarint batch (p + 1) = Inl e" using rv[of 0] by simp
      then show ?thesis using True f(2) by (simp add: parseLogBatch_record_def)
    next
      case F0: False
      then show ?thesis using False f(2) by (simp add: parseLogBatch_record_def)
    qed
  qed
  then show ?thesis
    using parseLogBatch_loop_break[OF f(1)] parseLogBatch_loop_throw[OF f(1)] by blast
qed

lemma parseLogBatch_encoded:
  assumes "length header = 12" "\<forall>op\<in>set ops. op_fits op" "batch_stops tail"
  shows "parseLogBatch (header @ encode_ops ops @ tail) entries = Some (entries @ puts ops)"
proof -
  let ?batch = "header @ encode_ops ops @ tail"
  have d: "drop (nat 12) ?batch = encode_ops ops @ tail" using assms(1) by simp
  have d': "drop (nat (12 + int (length (encode_ops ops)))) ?batch = tail"
    using drop_append_step[OF d] by simp
  have "parseLogBatch ?batch entries = parseLogBatch_loop ?batch 12 entries"
    using assms(1) by (simp add: parseLogBatch_def)
  also have "\<dots> = parseLogBatch_loop ?batch (12 + int (length (encode_ops ops))) (entries @ puts ops)"
    by (rule parseLogBatch_loop_ops[OF d _ assms(2)]) simp
  also have "\<dots> = Some (entries @ puts ops)"
    by (rule parseLogBatch_loop_stops[OF d' _ assms(3)]) simp
  finally show ?thesis .
qed


lemma readVarint_past_end:
  "int (length buf) \<le> off \<Longrightarrow> readVarint buf off = Inl UnexpectedEnd"
  unfolding readVarint_def by (subst readVarint_loop.simps) simp

lemma batch_stops_key_overrun:
  assumes "length k' < kl" "kl < 2 ^ 31"
  shows "batch_stops ([1] @ encodeVarint kl @ k')"
proof -
  let ?rest = "encodeVarint kl @ k'"
  have "drop (nat 0) ?rest = encodeVarint kl @ k'" by simp
  then have rv: "readVarint ?rest 0 = Inr (int kl, int (length (encodeVarint kl)))"
    by (rule readVarint_encodeVarint) (use assms in simp_all)
  have "int (length ?rest) \<le> int (length (encodeVarint kl)) + int kl"
    using assms(1) by simp
  then have "readVarint ?rest (int (length (encodeVarint kl)) + int kl) = Inl UnexpectedEnd"
    by (rule readVarint_past_end)
  with rv show ?thesis by (simp add: batch_stops_def)
qed

lemma parseLogBatch_record_put_clamped:
  assumes d: "drop (nat off) batch = [1] @ encodeVarint (length k) @ k @ encodeVarint vl @ v'"
    and off: "0 \<le> off" and k: "length k < 2 ^ 31" and v: "vl < 2 ^ 31" and short: "length v' < vl"
  shows "\<exists>off'. int (length batch) < off' \<and>
           parseLogBatch_record batch off entries
           = Inr (Some (off', entries @ [\<lparr>key = k, value = v'\<rparr>]))"
proof -
  let ?l1 = "int (length (encodeVarint (length k)))"
  let ?l2 = "int (length (encodeVarint vl))"
  from d have d0: "drop (nat off) batch
      = 1 # (encodeVarint (length k) @ (k @ encodeVarint vl @ v'))" by simp
  note f = drop_Cons_facts[OF d0 off]
  have o1: "0 \<le> off + 1" using off by simp
  have rv1: "readVarint batch (off + 1) = Inr (int (length k), ?l1)"
    by (rule readVarint_encodeVarint[OF f(3) o1 k])
  have o2: "0 \<le> off + 1 + ?l1" using off by simp
  have d2: "drop (nat (off + 1 + ?l1)) batch = k @ (encodeVarint vl @ v')"
    by (rule drop_append_step[OF f(3) o1])
  have key: "subarray batch (off + 1 + ?l1) (off + 1 + ?l1 + int (length k)) = k"
    by (rule subarray_prefix[OF d2 o2])
  have o3: "0 \<le> off + 1 + ?l1 + int (length k)" using off by simp
  have d3: "drop (nat (off + 1 + ?l1 + int (length k))) batch = encodeVarint vl @ v'"
    by (rule drop_append_step[OF d2 o2])
  have rv2: "readVarint batch (off + 1 + ?l1 + int (length k)) = Inr (int vl, ?l2)"
    by (rule readVarint_encodeVarint[OF d3 o3 v])
  have o4: "0 \<le> off + 1 + ?l1 + int (length k) + ?l2" using off by simp
  have d4: "drop (nat (off + 1 + ?l1 + int (length k) + ?l2)) batch = v' @ []"
    using drop_append_step[OF d3 o3] by simp
  have val: "subarray batch (off + 1 + ?l1 + int (length k) + ?l2)
               (off + 1 + ?l1 + int (length k) + ?l2 + int vl) = v'"
    using subarray_nonneg[OF o4, of "off + 1 + ?l1 + int (length k) + ?l2 + int vl" batch] d4 short
    by simp
  have "length (drop (nat (off + 1 + ?l1 + int (length k) + ?l2)) batch) = length v'"
    using d4 by simp
  then have "length batch \<le> nat (off + 1 + ?l1 + int (length k) + ?l2) + length v'"
    by simp
  then have past: "int (length batch) < off + 1 + ?l1 + int (length k) + ?l2 + int vl"
    using short o4 by linarith
  have "parseLogBatch_record batch off entries
        = Inr (Some (off + 1 + ?l1 + int (length k) + ?l2 + int vl, entries @ [\<lparr>key = k, value = v'\<rparr>]))"
    unfolding parseLogBatch_record_def Let_def f(2) rv1 rv2 sum.case prod.case key val
    by simp
  with past show ?thesis by blast
qed

text \<open>
  C10, as amended. \<open>parseLogBatch\<close> returns without an error on a put whose declared key or
  value length reaches past the end of the batch. When the value is too short, the put is
  appended with its full key and the value clamped to the bytes that remain. When the key is too
  short, nothing is appended for that record: reading the value length fails at the end of the
  buffer and decoding stops, keeping the entries of the records before it.
\<close>

theorem parseLogBatch_overrun:
  assumes "length header = 12" and "\<forall>op\<in>set ops. op_fits op"
  shows "(length k' < kl \<and> kl < 2 ^ 31 \<longrightarrow>
            parseLogBatch (header @ encode_ops ops @ [1] @ encodeVarint kl @ k') entries
            = Some (entries @ puts ops)) \<and>
         (length k < 2 ^ 31 \<and> length v' < vl \<and> vl < 2 ^ 31 \<longrightarrow>
            parseLogBatch (header @ encode_ops ops @ [1] @ encodeVarint (length k) @ k
                           @ encodeVarint vl @ v') entries
            = Some (entries @ puts ops @ [\<lparr>key = k, value = v'\<rparr>]))"
proof (intro conjI impI)
  assume "length k' < kl \<and> kl < 2 ^ 31"
  then have "batch_stops ([1] @ encodeVarint kl @ k')"
    using batch_stops_key_overrun by blast
  then show "parseLogBatch (header @ encode_ops ops @ [1] @ encodeVarint kl @ k') entries
             = Some (entries @ puts ops)"
    by (rule parseLogBatch_encoded[OF assms])
next
  assume a: "length k < 2 ^ 31 \<and> length v' < vl \<and> vl < 2 ^ 31"
  let ?tail = "[1] @ encodeVarint (length k) @ k @ encodeVarint vl @ v'"
  let ?batch = "header @ encode_ops ops @ ?tail"
  let ?p = "12 + int (length (encode_ops ops))"
  have d: "drop (nat 12) ?batch = encode_ops ops @ ?tail" using assms(1) by simp
  have d': "drop (nat ?p) ?batch = ?tail"
    using drop_append_step[OF d] by simp
  have p: "0 \<le> ?p" by simp
  have lt: "?p < int (length ?batch)" using assms(1) by simp
  obtain off' where past: "int (length ?batch) < off'"
    and rec: "parseLogBatch_record ?batch ?p (entries @ puts ops)
              = Inr (Some (off', (entries @ puts ops) @ [\<lparr>key = k, value = v'\<rparr>]))"
    using parseLogBatch_record_put_clamped[OF d' p, of "entries @ puts ops"] a by blast
  have "parseLogBatch ?batch entries = parseLogBatch_loop ?batch 12 entries"
    using assms(1) by (simp add: parseLogBatch_def)
  also have "\<dots> = parseLogBatch_loop ?batch ?p (entries @ puts ops)"
    by (rule parseLogBatch_loop_ops[OF d _ assms(2)]) simp
  also have "\<dots> = parseLogBatch_loop ?batch off' ((entries @ puts ops) @ [\<lparr>key = k, value = v'\<rparr>])"
    by (rule parseLogBatch_loop_step[OF lt rec])
  also have "\<dots> = Some ((entries @ puts ops) @ [\<lparr>key = k, value = v'\<rparr>])"
    by (rule parseLogBatch_loop_exit) (use past in simp)
  finally show "parseLogBatch ?batch entries = Some (entries @ puts ops @ [\<lparr>key = k, value = v'\<rparr>])"
    by simp
qed

lemma encodeVarint_small: "v \<le> 127 \<Longrightarrow> encodeVarint v = [of_nat v]"
  by (simp add: encodeVarint.simps[of v])

theorem parseLogBatch_overrun_witness:
  "length (replicate 12 (0::8 word)) = 12 \<and> op_fits (Put [0x6b] [0x76]) \<and>
   length [0x61 :: 8 word] < 5 \<and> (5::nat) < 2 ^ 31 \<and>
   parseLogBatch (replicate 12 0 @ encode_ops [Put [0x6b] [0x76]] @ [1] @ encodeVarint 5 @ [0x61]) []
     = Some ([] @ puts [Put [0x6b] [0x76]]) \<and>
   length [0x61 :: 8 word] < 2 ^ 31 \<and> length [0x62 :: 8 word] < 5 \<and>
   parseLogBatch (replicate 12 0 @ encode_ops [Put [0x6b] [0x76]] @ [1]
                  @ encodeVarint (length [0x61 :: 8 word]) @ [0x61] @ encodeVarint 5 @ [0x62]) []
     = Some ([] @ puts [Put [0x6b] [0x76]] @ [\<lparr>key = [0x61], value = [0x62]\<rparr>])"
proof -
  have h: "length (replicate 12 (0::8 word)) = 12" by simp
  have f: "\<forall>op\<in>set [Put [0x6b] [0x76]]. op_fits op" by (simp add: op_fits_def)
  have a: "length [0x61 :: 8 word] < 5 \<and> (5::nat) < 2 ^ 31" by simp
  have b: "length [0x61 :: 8 word] < 2 ^ 31 \<and> length [0x62 :: 8 word] < 5 \<and> (5::nat) < 2 ^ 31"
    by simp
  have f': "op_fits (Put [0x6b] [0x76])" by (simp add: op_fits_def)
  from parseLogBatch_overrun[OF h f, of "[0x61]" 5 "[]" "[0x61]" "[0x62]"] h f' a b
  show ?thesis by blast
qed

text \<open>
  The claim as stated fails: the batch below holds, after the 12 header bytes, a put with
  declared key length 5 and a single key byte, and no entry is appended for it.
\<close>

theorem parseLogBatch_key_overrun_counterexample:
  "js_index [0, 0, 0, 0, 0, 0, 0, 0, 0, 0, 0, 0, 1, 5, 0x61] 12 = Some 1 \<and>
   readVarint [0, 0, 0, 0, 0, 0, 0, 0, 0, 0, 0, 0, 1, 5, 0x61] 13 = Inr (5, 1) \<and>
   parseLogBatch [0, 0, 0, 0, 0, 0, 0, 0, 0, 0, 0, 0, 1, 5, 0x61] [] = Some []"
proof -
  have r: "parseLogBatch_record [0, 0, 0, 0, 0, 0, 0, 0, 0, 0, 0, 0, 1, 5, 0x61] 12 []
           = Inl UnexpectedEnd"
    by code_simp
  have "parseLogBatch_loop [0, 0, 0, 0, 0, 0, 0, 0, 0, 0, 0, 0, 1, 5, 0x61] 12 [] = Some []"
    by (rule parseLogBatch_loop_throw[OF _ r]) simp
  then have "parseLogBatch [0, 0, 0, 0, 0, 0, 0, 0, 0, 0, 0, 0, 1, 5, 0x61] [] = Some []"
    by (simp add: parseLogBatch_def)
  moreover have "js_index [0, 0, 0, 0, 0, 0, 0, 0, 0, 0, 0, 0, 1, 5, 0x61] 12 = Some 1"
    by code_simp
  moreover have "readVarint [0, 0, 0, 0, 0, 0, 0, 0, 0, 0, 0, 0, 1, 5, 0x61] 13 = Inr (5, 1)"
    by code_simp
  ultimately show ?thesis by blast
qed


section \<open>Log files made of encoded records\<close>

lemma uint8_of_nat: "uint (of_nat x :: 8 word) = int (x mod 256)"
  by (simp add: unsigned_of_nat take_bit_eq_mod)

lemma u16_roundtrip:
  assumes "L \<le> 65535"
  shows "uint (of_nat (L mod 256) :: 8 word) + 256 * uint (of_nat (L div 256) :: 8 word) = int L"
proof -
  have "L div 256 < 256" using assms by simp
  then have hi: "uint (of_nat (L div 256) :: 8 word) = int (L div 256)"
    by (simp add: uint8_of_nat)
  have lo: "uint (of_nat (L mod 256) :: 8 word) = int (L mod 256)"
    by (simp add: uint8_of_nat)
  have "int L mod 256 + 256 * (int L div 256) = int L" by (rule mod_mult_div_eq)
  then have "int (L mod 256) + 256 * int (L div 256) = int L"
    by (simp only: zmod_int zdiv_int of_nat_numeral)
  then show ?thesis unfolding hi lo .
qed

lemma logRecord_facts:
  assumes d: "drop (nat off) data = logRecord ty payload @ rest" and off: "0 \<le> off"
    and len: "length payload \<le> 65535"
  shows "off + 7 + int (length payload) \<le> int (length data)"
    and "readUInt16LE data (off + 4) = Inr (int (length payload))"
    and "js_index data (off + 6) = Some ty"
    and "subarray data (off + 7) (off + 7 + int (length payload)) = payload"
    and "drop (nat (off + (7 + int (length payload)))) data = rest"
proof -
  let ?L = "length payload"
  let ?hdr = "[0, 0, 0, 0, of_nat (?L mod 256), of_nat (?L div 256), ty] :: buffer"
  have d0: "drop (nat off) data = ?hdr @ (payload @ rest)"
    using d by (simp add: logRecord_def)
  have "length (drop (nat off) data) = 7 + ?L + length rest"
    unfolding d0 by simp
  then have ld: "length data = nat off + 7 + ?L + length rest" by simp
  then show le: "off + 7 + int ?L \<le> int (length data)" using off by simp
  have nth: "data ! (nat off + i) = (?hdr @ (payload @ rest)) ! i" if "i < 7" for i
  proof -
    have "nat off \<le> length data" using ld by simp
    then have "drop (nat off) data ! i = data ! (nat off + i)"
      by simp
    then show ?thesis unfolding d0 by simp
  qed
  have n4: "data ! nat (off + 4) = of_nat (?L mod 256)"
    using nth[of 4] off by (simp add: nat_add_distrib add.commute)
  have n5: "data ! nat (off + 4 + 1) = of_nat (?L div 256)"
    using nth[of 5] off by (simp add: nat_add_distrib add.commute)
  have n6: "data ! nat (off + 6) = ty"
    using nth[of 6] off by (simp add: nat_add_distrib add.commute)
  show "readUInt16LE data (off + 4) = Inr (int ?L)"
    using le off n4 n5 u16_roundtrip[OF len] by (simp add: readUInt16LE_def)
  show "js_index data (off + 6) = Some ty"
    using le off n6 by (simp add: js_index_def)
  have o7: "0 \<le> off + 7" using off by simp
  have d7: "drop (nat (off + 7)) data = payload @ rest"
    using drop_append_step[OF d0 off] by simp
  show "subarray data (off + 7) (off + 7 + int ?L) = payload"
    by (rule subarray_prefix[OF d7 o7])
  show "drop (nat (off + (7 + int ?L))) data = rest"
    using drop_append_step[OF d7 o7] by (simp add: add.assoc)
qed

lemma parseLogFile_loop_record:
  assumes d: "drop (nat off) data = logRecord ty payload @ rest" and off: "0 \<le> off"
    and ne: "payload \<noteq> []" and len: "length payload \<le> 65535"
    and fr: "7 \<le> BLOCK_SIZE - off mod BLOCK_SIZE"
  shows "parseLogFile_loop data off pending entries =
     (let offset' = off + (7 + int (length payload))
      in if ty = LOG_RECORD_FULL then
           (case parseLogBatch payload entries of
              None \<Rightarrow> None
            | Some entries' \<Rightarrow> parseLogFile_loop data offset' [] entries')
         else if ty = LOG_RECORD_FIRST then parseLogFile_loop data offset' [payload] entries
         else if ty = LOG_RECORD_MIDDLE then
           (if pending \<noteq> [] then parseLogFile_loop data offset' (pending @ [payload]) entries
            else parseLogFile_loop data offset' pending entries)
         else if ty = LOG_RECORD_LAST then
           (if pending \<noteq> [] then
              (case parseLogBatch (concat (pending @ [payload])) entries of
                 None \<Rightarrow> None
               | Some entries' \<Rightarrow> parseLogFile_loop data offset' [] entries')
            else parseLogFile_loop data offset' [] entries)
         else parseLogFile_loop data offset' pending entries)"
proof -
  note f = logRecord_facts[OF d off len]
  have lt: "off < int (length data)" using f(1) by simp
  have nr: "\<not> BLOCK_SIZE - off mod BLOCK_SIZE < 7" using fr by simp
  have n7: "\<not> off + 7 > int (length data)" using f(1) by simp
  have l0: "int (length payload) \<noteq> 0" using ne by simp
  have fit: "\<not> off + 7 + int (length payload) > int (length data)" using f(1) by simp
  show ?thesis
    unfolding parseLogFile_loop.simps[of data off pending entries] Let_def
    using lt nr n7 l0 fit
    by (simp only: if_True if_False f(2) f(3) f(4) sum.case simp_thms option.inject)
qed

lemma parseLogFile_loop_exit:
  "\<not> off < int (length data) \<Longrightarrow> parseLogFile_loop data off pending entries = Some (Inr entries)"
  by (subst parseLogFile_loop.simps) simp

lemma parseLogFile_loop_skip:
  assumes "off < int (length data)" "BLOCK_SIZE - off mod BLOCK_SIZE < 7"
  shows "parseLogFile_loop data off pending entries
         = parseLogFile_loop data (off + (BLOCK_SIZE - off mod BLOCK_SIZE)) pending entries"
  using assms by (subst parseLogFile_loop.simps) (simp add: Let_def)

lemma length_encode_op_le:
  "op \<in> set ops \<Longrightarrow> length (encode_op op) \<le> length (encode_ops ops)"
  by (induction ops) (auto simp: encode_ops_def)

lemma op_fits_of_length:
  assumes "length (encode_ops ops) < 2 ^ 31"
  shows "\<forall>op\<in>set ops. op_fits op"
proof
  fix op assume "op \<in> set ops"
  then have "length (encode_op op) < 2 ^ 31"
    using length_encode_op_le[of op ops] assms by simp
  then show "op_fits op" by (cases op) (simp_all add: op_fits_def)
qed

lemma BLOCK_SIZE_at_0: "7 \<le> BLOCK_SIZE - 0 mod BLOCK_SIZE"
  by (simp add: BLOCK_SIZE_def)

lemma parseLogFile_full:
  assumes ne: "payload \<noteq> []" and len: "length payload \<le> 65535"
  shows "parseLogFile (Some (logRecord LOG_RECORD_FULL payload))
         = map_option Inr (parseLogBatch payload [])"
proof -
  let ?data = "logRecord LOG_RECORD_FULL payload"
  have d: "drop (nat 0) ?data = logRecord LOG_RECORD_FULL payload @ []" by simp
  have l: "int (length ?data) = 7 + int (length payload)" by (simp add: logRecord_def)
  have "parseLogFile_loop ?data 0 [] [] =
          (case parseLogBatch payload [] of
             None \<Rightarrow> None
           | Some entries' \<Rightarrow> parseLogFile_loop ?data (0 + (7 + int (length payload))) [] entries')"
    using parseLogFile_loop_record[OF d _ ne len BLOCK_SIZE_at_0, of "[]" "[]"]
    by (simp only: Let_def if_True simp_thms)
  also have "\<dots> = map_option Inr (parseLogBatch payload [])"
    using l by (cases "parseLogBatch payload []") (simp_all add: parseLogFile_loop_exit)
  finally show ?thesis by (simp add: parseLogFile_def)
qed

lemma record_types_distinct:
  "LOG_RECORD_FIRST \<noteq> LOG_RECORD_FULL" "LOG_RECORD_MIDDLE \<noteq> LOG_RECORD_FULL"
  "LOG_RECORD_MIDDLE \<noteq> LOG_RECORD_FIRST" "LOG_RECORD_LAST \<noteq> LOG_RECORD_FULL"
  "LOG_RECORD_LAST \<noteq> LOG_RECORD_FIRST" "LOG_RECORD_LAST \<noteq> LOG_RECORD_MIDDLE"
  by (simp_all add: LOG_RECORD_FULL_def LOG_RECORD_FIRST_def LOG_RECORD_MIDDLE_def
      LOG_RECORD_LAST_def)

lemma length_logRecord: "int (length (logRecord ty p)) = 7 + int (length p)"
  by (simp add: logRecord_def)

lemma parseLogFile_three_fragments:
  assumes ne: "p1 \<noteq> []" "p2 \<noteq> []" "p3 \<noteq> []"
    and len: "length p1 \<le> 65535" "length p2 \<le> 65535" "length p3 \<le> 65535"
    and fr2: "7 \<le> BLOCK_SIZE - (7 + int (length p1)) mod BLOCK_SIZE"
    and fr3: "7 \<le> BLOCK_SIZE - (14 + int (length p1) + int (length p2)) mod BLOCK_SIZE"
  shows "parseLogFile (Some (logRecord LOG_RECORD_FIRST p1 @ logRecord LOG_RECORD_MIDDLE p2
                             @ logRecord LOG_RECORD_LAST p3))
         = map_option Inr (parseLogBatch (p1 @ p2 @ p3) [])"
proof -
  let ?data = "logRecord LOG_RECORD_FIRST p1 @ logRecord LOG_RECORD_MIDDLE p2
               @ logRecord LOG_RECORD_LAST p3"
  let ?o2 = "0 + (7 + int (length p1))"
  let ?o3 = "?o2 + (7 + int (length p2))"
  let ?o4 = "?o3 + (7 + int (length p3))"
  have d1: "drop (nat 0) ?data = logRecord LOG_RECORD_FIRST p1
              @ (logRecord LOG_RECORD_MIDDLE p2 @ logRecord LOG_RECORD_LAST p3)" by simp
  have z: "(0::int) \<le> 0" by simp
  have o2: "0 \<le> ?o2" by simp
  have o3: "0 \<le> ?o3" by simp
  have d2: "drop (nat ?o2) ?data = logRecord LOG_RECORD_MIDDLE p2 @ logRecord LOG_RECORD_LAST p3"
    by (rule logRecord_facts(5)[OF d1 z len(1)])
  have d3: "drop (nat ?o3) ?data = logRecord LOG_RECORD_LAST p3 @ []"
    using logRecord_facts(5)[OF d2 o2 len(2)] by simp
  have fr2': "7 \<le> BLOCK_SIZE - ?o2 mod BLOCK_SIZE" using fr2 by simp
  have fr3': "7 \<le> BLOCK_SIZE - ?o3 mod BLOCK_SIZE" using fr3 by (simp add: add.commute add.left_commute)
  have l: "\<not> ?o4 < int (length ?data)" by (simp add: length_logRecord)
  have "parseLogFile_loop ?data 0 [] [] = parseLogFile_loop ?data ?o2 [p1] []"
    using parseLogFile_loop_record[OF d1 z ne(1) len(1) BLOCK_SIZE_at_0, of "[]" "[]"]
    by (simp only: Let_def record_types_distinct if_True if_False simp_thms)
  also have "\<dots> = parseLogFile_loop ?data ?o3 [p1, p2] []"
    using parseLogFile_loop_record[OF d2 o2 ne(2) len(2) fr2', of "[p1]" "[]"]
    by (simp only: Let_def record_types_distinct if_True if_False simp_thms
        list.distinct append.simps not_False_eq_True)
  also have "\<dots> = (case parseLogBatch (concat ([p1, p2] @ [p3])) [] of
                       None \<Rightarrow> None
                     | Some entries' \<Rightarrow> parseLogFile_loop ?data ?o4 [] entries')"
    using parseLogFile_loop_record[OF d3 o3 ne(3) len(3) fr3', of "[p1, p2]" "[]"]
    by (simp only: Let_def record_types_distinct if_True if_False simp_thms
        list.distinct not_False_eq_True)
  also have "\<dots> = map_option Inr (parseLogBatch (p1 @ p2 @ p3) [])"
    using l by (cases "parseLogBatch (p1 @ p2 @ p3) []") (simp_all add: parseLogFile_loop_exit)
  finally show ?thesis by (simp add: parseLogFile_def)
qed

lemma length_puts: "length (puts ops) = length (filter (\<lambda>op. case op of Put k v \<Rightarrow> True | Delete k \<Rightarrow> False) ops)"
  by (induction ops rule: puts.induct) simp_all

text \<open>
  C5, as amended. Take a write-batch payload: 12 header bytes followed by encoded puts and
  deletes, at most 65535 bytes long. A log file holding it as one FULL record yields exactly
  its puts, in order (as many entries as the payload has puts). A log file holding the same
  payload cut into three non-empty pieces, written as a FIRST, a MIDDLE and a LAST record
  whose headers do not start in the last six bytes of a block, yields the same entries in the
  same order.
\<close>

theorem parseLogFile_fragmentation:
  assumes hdr: "length header = 12" and payload: "payload = header @ encode_ops ops"
    and len: "length payload \<le> 65535"
    and split: "payload = p1 @ p2 @ p3" and ne: "p1 \<noteq> []" "p2 \<noteq> []" "p3 \<noteq> []"
    and fr2: "7 \<le> BLOCK_SIZE - (7 + int (length p1)) mod BLOCK_SIZE"
    and fr3: "7 \<le> BLOCK_SIZE - (14 + int (length p1) + int (length p2)) mod BLOCK_SIZE"
  shows "parseLogFile (Some (logRecord LOG_RECORD_FULL payload)) = Some (Inr (puts ops)) \<and>
         parseLogFile (Some (logRecord LOG_RECORD_FIRST p1 @ logRecord LOG_RECORD_MIDDLE p2
                             @ logRecord LOG_RECORD_LAST p3)) = Some (Inr (puts ops)) \<and>
         length (puts ops)
           = length (filter (\<lambda>op. case op of Put k v \<Rightarrow> True | Delete k \<Rightarrow> False) ops)"
proof -
  have "length (encode_ops ops) < 2 ^ 31" using payload len by simp
  then have fits: "\<forall>op\<in>set ops. op_fits op" by (rule op_fits_of_length)
  have stops: "batch_stops []" by (simp add: batch_stops_def)
  have "parseLogBatch (header @ encode_ops ops @ []) [] = Some ([] @ puts ops)"
    by (rule parseLogBatch_encoded[OF hdr fits stops])
  then have batch: "parseLogBatch payload [] = Some (puts ops)" using payload by simp
  have pne: "payload \<noteq> []" using split ne by simp
  have lens: "length p1 \<le> 65535" "length p2 \<le> 65535" "length p3 \<le> 65535"
    using split len by simp_all
  have full: "parseLogFile (Some (logRecord LOG_RECORD_FULL payload)) = Some (Inr (puts ops))"
    using parseLogFile_full[OF pne len] batch by simp
  have frag: "parseLogFile (Some (logRecord LOG_RECORD_FIRST p1 @ logRecord LOG_RECORD_MIDDLE p2
                             @ logRecord LOG_RECORD_LAST p3)) = Some (Inr (puts ops))"
    using parseLogFile_three_fragments[OF ne lens fr2 fr3] batch split by simp
  from full frag length_puts show ?thesis by blast
qed

theorem parseLogFile_fragmentation_witness:
  "length (replicate 12 (0::8 word)) = 12 \<and>
   length (replicate 12 (0::8 word) @ encode_ops [Put [0x6b] [0x76], Put [0x61] [0x62]]) \<le> 65535 \<and>
   replicate 12 (0::8 word) @ encode_ops [Put [0x6b] [0x76], Put [0x61] [0x62]]
     = replicate 12 0 @ encode_ops [Put [0x6b] [0x76]] @ encode_ops [Put [0x61] [0x62]] \<and>
   replicate 12 (0::8 word) \<noteq> [] \<and> encode_ops [Put [0x6b] [0x76]] \<noteq> [] \<and>
   encode_ops [Put [0x61] [0x62]] \<noteq> [] \<and>
   7 \<le> BLOCK_SIZE - (7 + int (length (replicate 12 (0::8 word)))) mod BLOCK_SIZE \<and>
   7 \<le> BLOCK_SIZE - (14 + int (length (replicate 12 (0::8 word)))
                        + int (length (encode_ops [Put [0x6b] [0x76]]))) mod BLOCK_SIZE \<and>
   parseLogFile (Some (logRecord LOG_RECORD_FULL
       (replicate 12 0 @ encode_ops [Put [0x6b] [0x76], Put [0x61] [0x62]])))
     = Some (Inr [\<lparr>key = [0x6b], value = [0x76]\<rparr>, \<lparr>key = [0x61], value = [0x62]\<rparr>]) \<and>
   parseLogFile (Some (logRecord LOG_RECORD_FIRST (replicate 12 0)
       @ logRecord LOG_RECORD_MIDDLE (encode_ops [Put [0x6b] [0x76]])
       @ logRecord LOG_RECORD_LAST (encode_ops [Put [0x61] [0x62]])))
     = Some (Inr [\<lparr>key = [0x6b], value = [0x76]\<rparr>, \<lparr>key = [0x61], value = [0x62]\<rparr>])"
proof -
  let ?h = "replicate 12 (0::8 word)"
  let ?ops = "[Put [0x6b] [0x76], Put [0x61] [0x62]]"
  let ?p2 = "encode_ops [Put [0x6b] [0x76]]"
  let ?p3 = "encode_ops [Put [0x61] [0x62]]"
  have l2: "length ?p2 = 5" and l3: "length ?p3 = 5" and l: "length (encode_ops ?ops) = 10"
    by (simp_all add: encode_ops_def encodeVarint_small)
  have h1: "length ?h = 12" by simp
  have h2: "?h @ encode_ops ?ops = ?h @ encode_ops ?ops" by simp
  have h3: "length (?h @ encode_ops ?ops) \<le> 65535" using l by simp
  have h4: "?h @ encode_ops ?ops = ?h @ ?p2 @ ?p3" by (simp add: encode_ops_def)
  have h5: "?h \<noteq> []" by simp
  have h6: "?p2 \<noteq> []" using l2 by auto
  have h7: "?p3 \<noteq> []" using l3 by auto
  have h8: "7 \<le> BLOCK_SIZE - (7 + int (length ?h)) mod BLOCK_SIZE"
    by (simp add: BLOCK_SIZE_def)
  have h9: "7 \<le> BLOCK_SIZE - (14 + int (length ?h) + int (length ?p2)) mod BLOCK_SIZE"
    using l2 by (simp add: BLOCK_SIZE_def)
  from parseLogFile_fragmentation[OF h1 h2 h3 h4 h5 h6 h7 h8 h9] h1 h3 h4 h5 h6 h7 h8 h9
  show ?thesis by simp
qed

text \<open>
  The claim as stated fails when a fragment is empty. The payload below is a batch header and
  one put. As a FULL record it yields the put. Cut into the header, nothing and the put, the
  MIDDLE record has length 0: \<open>parseLogFile\<close> takes it for padding, moves to the next block
  boundary, which is past the end of the file, and drops the open FIRST fragment. No entry
  is returned.
\<close>

theorem parseLogFile_empty_fragment_counterexample:
  "logRecord LOG_RECORD_FULL (replicate 12 0 @ encode_ops [Put [0x6b] [0x76]])
     = [0, 0, 0, 0, 17, 0, 1, 0, 0, 0, 0, 0, 0, 0, 0, 0, 0, 0, 0, 1, 1, 0x6b, 1, 0x76] \<and>
   parseLogFile
     (Some [0, 0, 0, 0, 17, 0, 1, 0, 0, 0, 0, 0, 0, 0, 0, 0, 0, 0, 0, 1, 1, 0x6b, 1, 0x76])
     = Some (Inr [\<lparr>key = [0x6b], value = [0x76]\<rparr>]) \<and>
   replicate 12 0 @ encode_ops [Put [0x6b] [0x76]]
     = replicate 12 0 @ [] @ encode_ops [Put [0x6b] [0x76]] \<and>
   logRecord LOG_RECORD_FIRST (replicate 12 0) @ logRecord LOG_RECORD_MIDDLE []
     @ logRecord LOG_RECORD_LAST (encode_ops [Put [0x6b] [0x76]])
     = [0, 0, 0, 0, 12, 0, 2, 0, 0, 0, 0, 0, 0, 0, 0, 0, 0, 0, 0,
        0, 0, 0, 0, 0, 0, 3,
        0, 0, 0, 0, 5, 0, 4, 1, 1, 0x6b, 1, 0x76] \<and>
   parseLogFile
     (Some [0, 0, 0, 0, 12, 0, 2, 0, 0, 0, 0, 0, 0, 0, 0, 0, 0, 0, 0,
            0, 0, 0, 0, 0, 0, 3,
            0, 0, 0, 0, 5, 0, 4, 1, 1, 0x6b, 1, 0x76])
     = Some (Inr [])"
proof -
  have r: "replicate 12 (0::8 word) = [0, 0, 0, 0, 0, 0, 0, 0, 0, 0, 0, 0]" by code_simp
  have e: "encode_ops [Put [0x6b] [0x76]] = [1, 1, 0x6b, 1, 0x76]"
    by (simp add: encode_ops_def encodeVarint_small)
  have a: "logRecord LOG_RECORD_FULL (replicate 12 0 @ encode_ops [Put [0x6b] [0x76]])
     = [0, 0, 0, 0, 17, 0, 1, 0, 0, 0, 0, 0, 0, 0, 0, 0, 0, 0, 0, 1, 1, 0x6b, 1, 0x76]"
    unfolding r e by (simp add: logRecord_def LOG_RECORD_FULL_def)
  have b: "parseLogFile
     (Some [0, 0, 0, 0, 17, 0, 1, 0, 0, 0, 0, 0, 0, 0, 0, 0, 0, 0, 0, 1, 1, 0x6b, 1, 0x76])
     = Some (Inr [\<lparr>key = [0x6b], value = [0x76]\<rparr>])"
    by code_simp
  have c: "logRecord LOG_RECORD_FIRST (replicate 12 0) @ logRecord LOG_RECORD_MIDDLE []
     @ logRecord LOG_RECORD_LAST (encode_ops [Put [0x6b] [0x76]])
     = [0, 0, 0, 0, 12, 0, 2, 0, 0, 0, 0, 0, 0, 0, 0, 0, 0, 0, 0,
        0, 0, 0, 0, 0, 0, 3,
        0, 0, 0, 0, 5, 0, 4, 1, 1, 0x6b, 1, 0x76]"
    unfolding r e
    by (simp add: logRecord_def LOG_RECORD_FIRST_def LOG_RECORD_MIDDLE_def LOG_RECORD_LAST_def)
  have d: "parseLogFile
     (Some [0, 0, 0, 0, 12, 0, 2, 0, 0, 0, 0, 0, 0, 0, 0, 0, 0, 0, 0,
            0, 0, 0, 0, 0, 0, 3,
            0, 0, 0, 0, 5, 0, 4, 1, 1, 0x6b, 1, 0x76])
     = Some (Inr [])"
    by code_simp
  from a b c d show ?thesis by simp
qed

lemma skip_lands_on_boundary:
  assumes "BLOCK_SIZE - x mod BLOCK_SIZE = t"
  shows "(x + t) mod BLOCK_SIZE = 0"
proof -
  have "x + t = BLOCK_SIZE + (x - x mod BLOCK_SIZE)" using assms by simp
  also have "x - x mod BLOCK_SIZE = BLOCK_SIZE * (x div BLOCK_SIZE)"
    by (rule minus_mod_eq_mult_div)
  finally show ?thesis by simp
qed

lemma parseLogFile_first_trailer_last:
  assumes ne: "p1 \<noteq> []" "p3 \<noteq> []"
    and len: "length p1 \<le> 65535" "length p3 \<le> 65535"
    and tr: "BLOCK_SIZE - (7 + int (length p1)) mod BLOCK_SIZE = int (length trailer)"
    and short: "length trailer < 7"
  shows "parseLogFile (Some (logRecord LOG_RECORD_FIRST p1 @ trailer @ logRecord LOG_RECORD_LAST p3))
         = map_option Inr (parseLogBatch (p1 @ p3) [])"
proof -
  let ?data = "logRecord LOG_RECORD_FIRST p1 @ trailer @ logRecord LOG_RECORD_LAST p3"
  let ?o2 = "0 + (7 + int (length p1))"
  let ?o3 = "?o2 + (BLOCK_SIZE - ?o2 mod BLOCK_SIZE)"
  let ?o4 = "?o3 + (7 + int (length p3))"
  have d1: "drop (nat 0) ?data = logRecord LOG_RECORD_FIRST p1
              @ (trailer @ logRecord LOG_RECORD_LAST p3)" by simp
  have z: "(0::int) \<le> 0" by simp
  have o2: "0 \<le> ?o2" by simp
  have tr': "BLOCK_SIZE - ?o2 mod BLOCK_SIZE = int (length trailer)" using tr by simp
  have o3: "0 \<le> ?o3" unfolding tr' by simp
  have d2: "drop (nat ?o2) ?data = trailer @ (logRecord LOG_RECORD_LAST p3 @ [])"
    using logRecord_facts(5)[OF d1 z len(1)] by simp
  have d3: "drop (nat ?o3) ?data = logRecord LOG_RECORD_LAST p3 @ []"
    unfolding tr' by (rule drop_append_step[OF d2 o2])
  have lt2: "?o2 < int (length ?data)" by (simp add: length_logRecord)
  have sk: "BLOCK_SIZE - ?o2 mod BLOCK_SIZE < 7" unfolding tr' using short by simp
  have "?o3 mod BLOCK_SIZE = 0" by (rule skip_lands_on_boundary) simp
  then have fr3: "7 \<le> BLOCK_SIZE - ?o3 mod BLOCK_SIZE" by (simp add: BLOCK_SIZE_def)
  have l: "\<not> ?o4 < int (length ?data)" unfolding tr' by (simp add: length_logRecord)
  have "parseLogFile_loop ?data 0 [] [] = parseLogFile_loop ?data ?o2 [p1] []"
    using parseLogFile_loop_record[OF d1 z ne(1) len(1) BLOCK_SIZE_at_0, of "[]" "[]"]
    by (simp only: Let_def record_types_distinct if_True if_False simp_thms)
  also have "\<dots> = parseLogFile_loop ?data ?o3 [p1] []"
    by (rule parseLogFile_loop_skip[OF lt2 sk])
  also have "\<dots> = (case parseLogBatch (concat ([p1] @ [p3])) [] of
                       None \<Rightarrow> None
                     | Some entries' \<Rightarrow> parseLogFile_loop ?data ?o4 [] entries')"
    using parseLogFile_loop_record[OF d3 o3 ne(2) len(2) fr3, of "[p1]" "[]"]
    by (simp only: Let_def record_types_distinct if_True if_False simp_thms
        list.distinct not_False_eq_True)
  also have "\<dots> = map_option Inr (parseLogBatch (p1 @ p3) [])"
    using l by (cases "parseLogBatch (p1 @ p3) []") (simp_all add: parseLogFile_loop_exit)
  finally show ?thesis by (simp add: parseLogFile_def)
qed

text \<open>
  C2, as amended. At every position where fewer than 7 bytes remain before the next block
  boundary, \<open>parseLogFile\<close> skips to the boundary and leaves \<open>pendingRecord\<close> as it is. So a
  FIRST record with a non-empty payload that ends fewer than 7 bytes before a boundary, the
  bytes up to the boundary and a LAST record with a non-empty payload at the boundary decode
  as the write batch made of the two payloads.
\<close>

theorem parseLogFile_trailer_skip:
  "(offset < int (length data) \<and> BLOCK_SIZE - offset mod BLOCK_SIZE < 7 \<longrightarrow>
      parseLogFile_loop data offset pendingRecord entries
      = parseLogFile_loop data (offset + (BLOCK_SIZE - offset mod BLOCK_SIZE)) pendingRecord entries) \<and>
   (p1 \<noteq> [] \<and> p3 \<noteq> [] \<and> length p1 \<le> 65535 \<and> length p3 \<le> 65535 \<and>
    BLOCK_SIZE - (7 + int (length p1)) mod BLOCK_SIZE = int (length trailer) \<and>
    length trailer < 7 \<longrightarrow>
      parseLogFile (Some (logRecord LOG_RECORD_FIRST p1 @ trailer @ logRecord LOG_RECORD_LAST p3))
      = map_option Inr (parseLogBatch (p1 @ p3) []))"
  using parseLogFile_loop_skip[of offset data pendingRecord entries]
    parseLogFile_first_trailer_last[of p1 p3 trailer]
  by blast

lemma encodeVarint_32741: "encodeVarint 32741 = [0xE5, 0xFF, 0x01]"
proof -
  have "encodeVarint 1 = [0x01]" by (simp add: encodeVarint_small)
  then have "encodeVarint 255 = [0xFF, 0x01]" by (simp add: encodeVarint.simps[of 255])
  then show ?thesis by (simp add: encodeVarint.simps[of 32741])
qed

text \<open>
  An instance: the FIRST record holds a batch header and a put with key \<open>k\<close> whose declared
  value length is 32741, and ends at offset 32765; three bytes of padding follow, and the LAST
  record at offset 32768 holds the last value byte. The put is decoded from both fragments.
\<close>

theorem parseLogFile_trailer_skip_witness:
  "(32765::int) < int (length (replicate 32766 (0::8 word))) \<and>
   BLOCK_SIZE - 32765 mod BLOCK_SIZE < 7 \<and>
   parseLogFile_loop (replicate 32766 0) 32765 [[1]] []
     = parseLogFile_loop (replicate 32766 0) (32765 + (BLOCK_SIZE - 32765 mod BLOCK_SIZE)) [[1]] [] \<and>
   replicate 12 (0::8 word) @ [1, 1, 0x6b, 0xE5, 0xFF, 0x01] @ replicate 32740 0x61 \<noteq> [] \<and>
   [0x62 :: 8 word] \<noteq> [] \<and>
   length (replicate 12 (0::8 word) @ [1, 1, 0x6b, 0xE5, 0xFF, 0x01] @ replicate 32740 0x61)
     \<le> 65535 \<and>
   length [0x62 :: 8 word] \<le> 65535 \<and>
   BLOCK_SIZE - (7 + int (length (replicate 12 (0::8 word) @ [1, 1, 0x6b, 0xE5, 0xFF, 0x01]
       @ replicate 32740 0x61))) mod BLOCK_SIZE = int (length [0, 0, 0 :: 8 word]) \<and>
   length [0, 0, 0 :: 8 word] < 7 \<and>
   parseLogFile (Some (logRecord LOG_RECORD_FIRST
       (replicate 12 0 @ [1, 1, 0x6b, 0xE5, 0xFF, 0x01] @ replicate 32740 0x61)
       @ [0, 0, 0] @ logRecord LOG_RECORD_LAST [0x62]))
     = Some (Inr [\<lparr>key = [0x6b], value = replicate 32740 0x61 @ [0x62]\<rparr>])"
proof -
  let ?p1 = "replicate 12 (0::8 word) @ [1, 1, 0x6b, 0xE5, 0xFF, 0x01] @ replicate 32740 0x61"
  let ?v = "replicate 32740 (0x61::8 word) @ [0x62]"
  have a: "(32765::int) < int (length (replicate 32766 (0::8 word))) \<and>
           BLOCK_SIZE - 32765 mod BLOCK_SIZE < 7"
    by (simp add: BLOCK_SIZE_def)
  have b: "?p1 \<noteq> [] \<and> [0x62 :: 8 word] \<noteq> [] \<and> length ?p1 \<le> 65535 \<and>
           length [0x62 :: 8 word] \<le> 65535 \<and>
           BLOCK_SIZE - (7 + int (length ?p1)) mod BLOCK_SIZE = int (length [0, 0, 0 :: 8 word]) \<and>
           length [0, 0, 0 :: 8 word] < 7"
    by (simp add: BLOCK_SIZE_def)
  have enc: "?p1 @ [0x62] = replicate 12 0 @ encode_ops [Put [0x6b] ?v] @ []"
    by (simp add: encode_ops_def encodeVarint_small encodeVarint_32741)
  have fits: "\<forall>op\<in>set [Put [0x6b] ?v]. op_fits op" by (simp add: op_fits_def)
  have stops: "batch_stops []" by (simp add: batch_stops_def)
  have "parseLogBatch (replicate 12 0 @ encode_ops [Put [0x6b] ?v] @ []) []
        = Some ([] @ puts [Put [0x6b] ?v])"
    by (rule parseLogBatch_encoded[OF _ fits stops]) simp
  then have batch: "parseLogBatch (?p1 @ [0x62]) [] = Some [\<lparr>key = [0x6b], value = ?v\<rparr>]"
    unfolding enc by simp
  note t = parseLogFile_trailer_skip[of 32765 "replicate 32766 0" "[[1]]" "[]"
      ?p1 "[0x62]" "[0, 0, 0]"]
  have r1: "parseLogFile_loop (replicate 32766 0) 32765 [[1]] []
     = parseLogFile_loop (replicate 32766 0) (32765 + (BLOCK_SIZE - 32765 mod BLOCK_SIZE)) [[1]] []"
    using conjunct1[OF t] a by blast
  have "parseLogFile (Some (logRecord LOG_RECORD_FIRST ?p1 @ [0, 0, 0]
                            @ logRecord LOG_RECORD_LAST [0x62]))
        = map_option Inr (parseLogBatch (?p1 @ [0x62]) [])"
    using conjunct2[OF t] b by blast
  then have r2: "parseLogFile (Some (logRecord LOG_RECORD_FIRST ?p1 @ [0, 0, 0]
                            @ logRecord LOG_RECORD_LAST [0x62]))
        = Some (Inr [\<lparr>key = [0x6b], value = ?v\<rparr>])"
    unfolding batch by simp
  from a b r1 r2 show ?thesis by blast
qed

lemma encodeVarint_32743: "encodeVarint 32743 = [0xE7, 0xFF, 0x01]"
proof -
  have "encodeVarint 1 = [0x01]" by (simp add: encodeVarint_small)
  then have "encodeVarint 255 = [0xFF, 0x01]" by (simp add: encodeVarint.simps[of 255])
  then show ?thesis by (simp add: encodeVarint.simps[of 32743])
qed

text \<open>
  The claim as stated fails. The file below is a FIRST record of 32767 bytes (a batch header
  and a put with key \<open>k\<close> whose declared value length is 32743), one byte of padding up to
  offset 32768, and a LAST record holding the last value byte. The skip at offset 32767 keeps
  the open fragment, and the put is decoded from both fragments.
\<close>

theorem parseLogFile_trailer_skip_counterexample:
  "BLOCK_SIZE - (7 + int (length (replicate 12 (0::8 word) @ [1, 1, 0x6b, 0xE7, 0xFF, 0x01]
       @ replicate 32742 0x61))) mod BLOCK_SIZE = 1 \<and>
   parseLogFile (Some (logRecord LOG_RECORD_FIRST
       (replicate 12 0 @ [1, 1, 0x6b, 0xE7, 0xFF, 0x01] @ replicate 32742 0x61)
       @ [0] @ logRecord LOG_RECORD_LAST [0x62]))
   = Some (Inr [\<lparr>key = [0x6b], value = replicate 32742 0x61 @ [0x62]\<rparr>])"
proof -
  let ?p1 = "replicate 12 (0::8 word) @ [1, 1, 0x6b, 0xE7, 0xFF, 0x01] @ replicate 32742 0x61"
  let ?v = "replicate 32742 (0x61::8 word) @ [0x62]"
  have tr: "BLOCK_SIZE - (7 + int (length ?p1)) mod BLOCK_SIZE = int (length [0::8 word])"
    by (simp add: BLOCK_SIZE_def)
  have whole: "parseLogFile (Some (logRecord LOG_RECORD_FIRST ?p1 @ [0] @ logRecord LOG_RECORD_LAST [0x62]))
        = map_option Inr (parseLogBatch (?p1 @ [0x62]) [])"
    by (rule parseLogFile_first_trailer_last[OF _ _ _ _ tr]) simp_all
  have enc: "?p1 @ [0x62] = replicate 12 0 @ encode_ops [Put [0x6b] ?v] @ []"
    by (simp add: encode_ops_def encodeVarint_small encodeVarint_32743)
  have fits: "\<forall>op\<in>set [Put [0x6b] ?v]. op_fits op" by (simp add: op_fits_def)
  have stops: "batch_stops []" by (simp add: batch_stops_def)
  have "parseLogBatch (replicate 12 0 @ encode_ops [Put [0x6b] ?v] @ []) []
        = Some ([] @ puts [Put [0x6b] ?v])"
    by (rule parseLogBatch_encoded[OF _ fits stops]) simp
  then have "parseLogBatch (?p1 @ [0x62]) [] = Some [\<lparr>key = [0x6b], value = ?v\<rparr>]"
    unfolding enc by simp
  with whole tr show ?thesis by simp
qed

section \<open>Tables and data blocks\<close>

lemma subarray_last:
  assumes "0 < n" "n \<le> length buf"
  shows "subarray buf (- int n) (int (length buf)) = drop (length buf - n) buf"
proof -
  have "clamp_index buf (- int n) = length buf - n"
    using assms by (simp add: clamp_index_def nat_diff_distrib)
  moreover have "clamp_index buf (int (length buf)) = length buf"
    by (simp add: clamp_index_def)
  ultimately show ?thesis by (simp add: subarray_def)
qed

text \<open>
  C7. When the last 8 bytes of a file differ from the magic constant (in particular when the
  file has fewer than 8 bytes), \<open>parseSSTable\<close> returns normally with no entries, whatever
  the rest of the file and the footer hold.
\<close>

theorem parseSSTable_bad_magic:
  assumes "drop (length data - 8) data \<noteq> LEVELDB_MAGIC"
  shows "parseSSTable argLimit snappyUncompress (Some data) = Some (Inr [])"
proof (cases "int (length data) < 48")
  case True
  then show ?thesis by (simp add: parseSSTable_def)
next
  case False
  then have l: "48 \<le> length data" by simp
  let ?footer = "subarray data (- 48) (int (length data))"
  have footer: "?footer = drop (length data - 48) data"
    using subarray_last[OF _ l] by simp
  have "subarray ?footer 40 48 = take (nat (48 - 40)) (drop (nat 40) ?footer)"
    by (rule subarray_nonneg) simp_all
  also have "\<dots> = drop (length data - 8) data"
    using l by (simp add: footer)
  finally have "subarray ?footer 40 48 \<noteq> LEVELDB_MAGIC" using assms by simp
  then show ?thesis using False by (simp add: parseSSTable_def Let_def)
qed

theorem parseSSTable_bad_magic_witness:
  "drop (length (replicate 100 (0::8 word)) - 8) (replicate 100 (0::8 word)) \<noteq> LEVELDB_MAGIC \<and>
   parseSSTable 100000 (\<lambda>b n. Inl SnappyFailure) (Some (replicate 100 0)) = Some (Inr [])"
proof -
  have h: "drop (length (replicate 100 (0::8 word)) - 8) (replicate 100 (0::8 word)) \<noteq> LEVELDB_MAGIC"
    by code_simp
  from parseSSTable_bad_magic[OF h] h show ?thesis by blast
qed

lemma parseDataBlock_entry_encoded:
  assumes d: "drop (nat off) block = encode_block_entry (shared, delta, v) @ rest"
    and off: "0 \<le> off" and fits: "entry_fits (shared, delta, v)"
    and inside: "off + int (length (encode_block_entry (shared, delta, v))) \<le> restartsStart"
  shows "parseDataBlock_entry block restartsStart off prevKey
         = Inr (Some (off + int (length (encode_block_entry (shared, delta, v))),
                      \<lparr>key = take shared prevKey @ delta, value = v\<rparr>,
                      take shared prevKey @ delta))"
proof -
  let ?l1 = "int (length (encodeVarint shared))"
  let ?l2 = "int (length (encodeVarint (length delta)))"
  let ?l3 = "int (length (encodeVarint (length v)))"
  from fits have s: "shared < 2 ^ 31" and dl: "length delta < 2 ^ 31" and vl: "length v < 2 ^ 31"
    by (simp_all add: entry_fits_def)
  from d have d0: "drop (nat off) block
      = encodeVarint shared @ (encodeVarint (length delta) @ encodeVarint (length v) @ delta @ v @ rest)"
    by (simp add: encode_block_entry_def)
  have rv1: "readVarint block off = Inr (int shared, ?l1)"
    by (rule readVarint_encodeVarint[OF d0 off s])
  have o1: "0 \<le> off + ?l1" using off by simp
  have d1: "drop (nat (off + ?l1)) block
      = encodeVarint (length delta) @ (encodeVarint (length v) @ delta @ v @ rest)"
    by (rule drop_append_step[OF d0 off])
  have rv2: "readVarint block (off + ?l1) = Inr (int (length delta), ?l2)"
    by (rule readVarint_encodeVarint[OF d1 o1 dl])
  have o2: "0 \<le> off + ?l1 + ?l2" using off by simp
  have d2: "drop (nat (off + ?l1 + ?l2)) block = encodeVarint (length v) @ (delta @ v @ rest)"
    by (rule drop_append_step[OF d1 o1])
  have rv3: "readVarint block (off + ?l1 + ?l2) = Inr (int (length v), ?l3)"
    by (rule readVarint_encodeVarint[OF d2 o2 vl])
  have o3: "0 \<le> off + ?l1 + ?l2 + ?l3" using off by simp
  have d3: "drop (nat (off + ?l1 + ?l2 + ?l3)) block = delta @ (v @ rest)"
    by (rule drop_append_step[OF d2 o2])
  have kd: "subarray block (off + ?l1 + ?l2 + ?l3) (off + ?l1 + ?l2 + ?l3 + int (length delta)) = delta"
    by (rule subarray_prefix[OF d3 o3])
  have o4: "0 \<le> off + ?l1 + ?l2 + ?l3 + int (length delta)" using off by simp
  have d4: "drop (nat (off + ?l1 + ?l2 + ?l3 + int (length delta))) block = v @ rest"
    by (rule drop_append_step[OF d3 o3])
  have val: "subarray block (off + ?l1 + ?l2 + ?l3 + int (length delta))
               (off + ?l1 + ?l2 + ?l3 + int (length delta) + int (length v)) = v"
    by (rule subarray_prefix[OF d4 o4])
  have pk: "subarray prevKey 0 (int shared) = take shared prevKey"
    using subarray_nonneg[of 0 "int shared" prevKey] by simp
  have total: "int (length (encode_block_entry (shared, delta, v)))
               = ?l1 + ?l2 + ?l3 + int (length delta) + int (length v)"
    by (simp add: encode_block_entry_def)
  have chk: "\<not> off + ?l1 + ?l2 + ?l3 + int (length delta) + int (length v) > restartsStart"
    using inside total by simp
  show ?thesis
    unfolding parseDataBlock_entry_def Let_def rv1 rv2 rv3 sum.case prod.case kd val pk total
    using chk by simp
qed

lemma parseDataBlock_loop_exit:
  "\<not> offset < restartsStart \<Longrightarrow>
   parseDataBlock_loop block restartsStart offset prevKey entries = Some entries"
  by (subst parseDataBlock_loop.simps) simp

lemma parseDataBlock_loop_step:
  "offset < restartsStart \<Longrightarrow>
   parseDataBlock_entry block restartsStart offset prevKey = Inr (Some (offset', e, prevKey')) \<Longrightarrow>
   parseDataBlock_loop block restartsStart offset prevKey entries
   = parseDataBlock_loop block restartsStart offset' prevKey' (entries @ [e])"
  by (subst parseDataBlock_loop.simps) simp

lemma encodeVarint_nonempty: "encodeVarint n \<noteq> []"
  by (subst encodeVarint.simps) simp

lemma parseDataBlock_loop_encoded:
  assumes "drop (nat off) block = concat (map encode_block_entry ts) @ tail" "0 \<le> off"
    "\<forall>t\<in>set ts. entry_fits t"
    "off + int (length (concat (map encode_block_entry ts))) = restartsStart"
  shows "parseDataBlock_loop block restartsStart off prevKey entries
         = Some (entries @ spec_reconstruct prevKey ts)"
  using assms
proof (induction ts arbitrary: off prevKey entries)
  case Nil
  then have "\<not> off < restartsStart" by simp
  then show ?case by (simp add: parseDataBlock_loop_exit)
next
  case (Cons t ts)
  obtain shared delta v where t: "t = (shared, delta, v)" by (cases t)
  let ?n = "int (length (encode_block_entry (shared, delta, v)))"
  let ?key = "take shared prevKey @ delta"
  have d: "drop (nat off) block
           = encode_block_entry (shared, delta, v) @ (concat (map encode_block_entry ts) @ tail)"
    using Cons.prems(1) t by simp
  have fits: "entry_fits (shared, delta, v)" using Cons.prems(3) t by simp
  have "encodeVarint shared \<noteq> []" by (rule encodeVarint_nonempty)
  then have "0 < int (length (encodeVarint shared))" by simp
  moreover have "?n = int (length (encodeVarint shared)) + int (length (encodeVarint (length delta)))
      + int (length (encodeVarint (length v))) + int (length delta) + int (length v)"
    by (simp add: encode_block_entry_def)
  ultimately have pos: "0 < ?n" by linarith
  have total: "off + ?n + int (length (concat (map encode_block_entry ts))) = restartsStart"
    using Cons.prems(4) t by simp
  then have inside: "off + ?n \<le> restartsStart" by simp
  have lt: "off < restartsStart" using pos inside by linarith
  have ent: "parseDataBlock_entry block restartsStart off prevKey
             = Inr (Some (off + ?n, \<lparr>key = ?key, value = v\<rparr>, ?key))"
    by (rule parseDataBlock_entry_encoded[OF d Cons.prems(2) fits inside])
  have d': "drop (nat (off + ?n)) block = concat (map encode_block_entry ts) @ tail"
    by (rule drop_append_step[OF d Cons.prems(2)])
  have o': "0 \<le> off + ?n" using Cons.prems(2) by simp
  have fits': "\<forall>t\<in>set ts. entry_fits t" using Cons.prems(3) by simp
  have "parseDataBlock_loop block restartsStart off prevKey entries
        = parseDataBlock_loop block restartsStart (off + ?n) ?key (entries @ [\<lparr>key = ?key, value = v\<rparr>])"
    by (rule parseDataBlock_loop_step[OF lt ent])
  also have "\<dots> = Some ((entries @ [\<lparr>key = ?key, value = v\<rparr>]) @ spec_reconstruct ?key ts)"
    by (rule Cons.IH[OF d' o' fits' total])
  finally show ?case using t by simp
qed

lemma le_bytes_sum:
  fixes R a b c d e f :: nat
  assumes "R = a + 256 * b" "b = c + 256 * d" "d = e + 256 * f"
  shows "a + 256 * c + 65536 * e + 16777216 * f = R"
  using assms by simp

lemma readUInt32LE_writeUInt32LE:
  assumes "R < 2 ^ 32"
  shows "readUInt32LE (pre @ writeUInt32LE R) (int (length pre)) = Inr (int R)"
proof -
  have nth: "(pre @ writeUInt32LE R) ! nat (int (length pre) + int i) = writeUInt32LE R ! i" for i
    by (simp add: nth_append flip: of_nat_add)
  have l: "length (writeUInt32LE R) = 4" by (simp add: writeUInt32LE_def)
  have b0: "(pre @ writeUInt32LE R) ! nat (int (length pre)) = of_nat (R mod 256)"
    using nth[of 0] by (simp add: writeUInt32LE_def)
  have b1: "(pre @ writeUInt32LE R) ! nat (int (length pre) + 1) = of_nat (R div 256 mod 256)"
    using nth[of 1] by (simp add: writeUInt32LE_def)
  have b2: "(pre @ writeUInt32LE R) ! nat (int (length pre) + 2) = of_nat (R div 65536 mod 256)"
    using nth[of 2] by (simp add: writeUInt32LE_def)
  have b3: "(pre @ writeUInt32LE R) ! nat (int (length pre) + 3) = of_nat (R div 16777216 mod 256)"
    using nth[of 3] by (simp add: writeUInt32LE_def)
  have hi: "R div 16777216 < 256" using assms by simp
  have q2: "R div 256 div 256 = R div 65536" using div_mult2_eq[of R 256 256] by simp
  have q3: "R div 65536 div 256 = R div 16777216" using div_mult2_eq[of R 65536 256] by simp
  have e1: "R = R mod 256 + 256 * (R div 256)" by simp
  have e2: "R div 256 = R div 256 mod 256 + 256 * (R div 65536)"
    using mod_mult_div_eq[of "R div 256" 256] q2 by simp
  have e3: "R div 65536 = R div 65536 mod 256 + 256 * (R div 16777216)"
    using mod_mult_div_eq[of "R div 65536" 256] q3 by simp
  have hi': "R div 16777216 mod 256 = R div 16777216" using hi by simp
  have "R mod 256 + 256 * (R div 256 mod 256) + 65536 * (R div 65536 mod 256)
          + 16777216 * (R div 16777216 mod 256) = R"
    unfolding hi' by (rule le_bytes_sum[OF e1 e2 e3])
  from arg_cong[where f = int, OF this]
  have sum: "int (R mod 256) + 256 * int (R div 256 mod 256) + 65536 * int (R div 65536 mod 256)
          + 16777216 * int (R div 16777216 mod 256) = int R"
    by (simp only: of_nat_add of_nat_mult of_nat_numeral)
  have u: "uint (of_nat (x mod 256) :: 8 word) = int (x mod 256)" for x
    by (simp add: uint8_of_nat)
  have rng: "0 \<le> int (length pre) \<and> int (length pre) + 4 \<le> int (length (pre @ writeUInt32LE R))"
    using l by simp
  show ?thesis
    unfolding readUInt32LE_def b0 b1 b2 b3 u using rng sum by (simp only: if_True simp_thms)
qed

text \<open>
  C1, as amended. Take a block made of encoded entries whose shared, suffix and value lengths
  are all below \<open>2 ^ 31\<close>, followed by a restart array and its count. \<open>parseDataBlock\<close>
  returns every entry, each key being the first \<open>shared\<close> bytes of the previous key
  followed by the key suffix; a \<open>shared\<close> that exceeds the length of the previous key takes
  the whole previous key and does not stop the parse.
\<close>

theorem parseDataBlock_reconstructs:
  assumes "\<forall>t\<in>set ts. entry_fits t" and "length restarts = 4 * R" and "R < 2 ^ 32"
  shows "parseDataBlock (concat (map encode_block_entry ts) @ restarts @ writeUInt32LE R)
         = Some (Inr (spec_reconstruct [] ts))"
proof -
  let ?es = "concat (map encode_block_entry ts)"
  let ?block = "?es @ restarts @ writeUInt32LE R"
  have l4: "length (writeUInt32LE R) = 4" by (simp add: writeUInt32LE_def)
  have len: "int (length ?block) = int (length ?es) + 4 * int R + 4"
    using assms(2) l4 by simp
  have "readUInt32LE ((?es @ restarts) @ writeUInt32LE R) (int (length (?es @ restarts))) = Inr (int R)"
    by (rule readUInt32LE_writeUInt32LE[OF assms(3)])
  moreover have "int (length ?block) - 4 = int (length (?es @ restarts))" using l4 by simp
  ultimately have rd: "readUInt32LE ?block (int (length ?block) - 4) = Inr (int R)" by simp
  have rs: "int (length ?block) - 4 - int R * 4 = int (length ?es)" using len by simp
  have d: "drop (nat 0) ?block = ?es @ (restarts @ writeUInt32LE R)" by simp
  have loop: "parseDataBlock_loop ?block (int (length ?es)) 0 [] [] = Some ([] @ spec_reconstruct [] ts)"
    by (rule parseDataBlock_loop_encoded[OF d _ assms(1)]) simp_all
  have "\<not> int (length ?block) < 4" using len by simp
  then show ?thesis
    unfolding parseDataBlock_def rd sum.case Let_def rs loop by simp
qed

theorem parseDataBlock_reconstructs_witness:
  "entry_fits (0, [0x61], [0x31]) \<and> entry_fits (5, [0x62], [0x32]) \<and>
   length [0, 0, 0, 0 :: 8 word] = 4 * 1 \<and> (1::nat) < 2 ^ 32 \<and>
   parseDataBlock (concat (map encode_block_entry [(0, [0x61], [0x31]), (5, [0x62], [0x32])])
                   @ [0, 0, 0, 0] @ writeUInt32LE 1)
   = Some (Inr [\<lparr>key = [0x61], value = [0x31]\<rparr>, \<lparr>key = [0x61, 0x62], value = [0x32]\<rparr>])"
proof -
  have a: "\<forall>t\<in>set [(0, [0x61], [0x31]), (5, [0x62 :: 8 word], [0x32 :: 8 word])]. entry_fits t"
    by (simp add: entry_fits_def)
  have b: "length [0, 0, 0, 0 :: 8 word] = 4 * 1" by simp
  have c: "(1::nat) < 2 ^ 32" by simp
  have a': "entry_fits (0, [0x61], [0x31]) \<and> entry_fits (5, [0x62], [0x32])"
    by (simp add: entry_fits_def)
  from parseDataBlock_reconstructs[OF a b c] a' b c show ?thesis by simp
qed

text \<open>
  The claim as stated fails: in the block below the second entry, at offset 5, has shared
  length 5 while the previous key has one byte. Parsing does not stop there: the entry is
  returned, with the whole previous key as its prefix.
\<close>

theorem parseDataBlock_shared_counterexample:
  "readVarint [0, 1, 1, 0x61, 0x31, 5, 1, 1, 0x62, 0x32, 0, 0, 0, 0, 1, 0, 0, 0] 5 = Inr (5, 1) \<and>
   parseDataBlock [0, 1, 1, 0x61, 0x31, 5, 1, 1, 0x62, 0x32, 0, 0, 0, 0, 1, 0, 0, 0]
   = Some (Inr [\<lparr>key = [0x61], value = [0x31]\<rparr>, \<lparr>key = [0x61, 0x62], value = [0x32]\<rparr>])"
  by code_simp

text \<open>
  The bound on the lengths matters. A five-byte varint with bit 31 set is returned by
  \<open>readVarint\<close> as a negative number, and \<open>prevKey.subarray(0, shared)\<close> then counts from
  the end of the previous key: with the previous key \<open>abc\<close> and a shared length read as -1,
  the suffix \<open>d\<close> gives the key \<open>abd\<close>.
\<close>

lemma parseDataBlock_negative_shared:
  "readVarint [0xFF, 0xFF, 0xFF, 0xFF, 0x0F] 0 = Inr (- 1, 5) \<and>
   parseDataBlock [0, 3, 0, 0x61, 0x62, 0x63, 0xFF, 0xFF, 0xFF, 0xFF, 0x0F, 1, 0, 0x64,
                   0, 0, 0, 0, 1, 0, 0, 0]
   = Some (Inr [\<lparr>key = [0x61, 0x62, 0x63], value = []\<rparr>,
                \<lparr>key = [0x61, 0x62, 0x64], value = []\<rparr>])"
  by code_simp

section \<open>Directories\<close>

lemma parseSSTables_results:
  assumes "\<forall>f\<in>set files.
             parseSSTable argLimit snappyUncompress (readFile fs (join dir f)) = Some (Inr (tables f))
             \<and> int (length (tables f)) \<le> argLimit"
  shows "parseSSTables argLimit snappyUncompress fs dir files entries
         = Some (Inr (entries @ concat (map tables files)))"
  using assms by (induction files arbitrary: entries) (simp_all add: push_spread_def)

lemma parseLogFiles_results:
  assumes "\<forall>f\<in>set files.
             parseLogFile (readFile fs (join dir f)) = Some (Inr (logs f))
             \<and> int (length (logs f)) \<le> argLimit"
  shows "parseLogFiles argLimit fs dir files entries
         = Some (Inr (entries @ concat (map logs files)))"
  using assms by (induction files arbitrary: entries) (simp_all add: push_spread_def)

lemma readChromiumLevelDB_results:
  assumes "readdir fs dir = Some files"
    and "\<forall>f\<in>set files. endsWith f ''.ldb'' \<or> endsWith f ''.sst'' \<longrightarrow>
           parseSSTable argLimit snappyUncompress (readFile fs (join dir f)) = Some (Inr (tables f))
           \<and> int (length (tables f)) \<le> argLimit"
    and "\<forall>f\<in>set files. endsWith f ''.log'' \<longrightarrow>
           parseLogFile (readFile fs (join dir f)) = Some (Inr (logs f))
           \<and> int (length (logs f)) \<le> argLimit"
  shows "readChromiumLevelDB argLimit snappyUncompress fs dir
         = Some (Inr (concat (map tables (filter (\<lambda>f. endsWith f ''.ldb'' \<or> endsWith f ''.sst'') files))
                      @ concat (map logs (filter (\<lambda>f. endsWith f ''.log'') files))))"
proof -
  let ?sst = "filter (\<lambda>f. endsWith f ''.ldb'' \<or> endsWith f ''.sst'') files"
  let ?log = "filter (\<lambda>f. endsWith f ''.log'') files"
  have t: "parseSSTables argLimit snappyUncompress fs dir ?sst []
           = Some (Inr ([] @ concat (map tables ?sst)))"
    by (rule parseSSTables_results) (use assms(2) in auto)
  have l: "parseLogFiles argLimit fs dir ?log (concat (map tables ?sst))
           = Some (Inr (concat (map tables ?sst) @ concat (map logs ?log)))"
    by (rule parseLogFiles_results) (use assms(3) in auto)
  show ?thesis
    unfolding readChromiumLevelDB_def assms(1) option.case Let_def t sum.case
    using l by simp
qed

text \<open>
  C3, as amended. \<open>readChromiumLevelDB\<close> runs \<open>parseSSTable\<close> on every listed name ending
  in \<open>.ldb\<close> or \<open>.sst\<close> and \<open>parseLogFile\<close> on every listed name ending in \<open>.log\<close>. When
  no file yields more entries than the engine accepts as arguments of one call, its result is
  the entries of all table files, in listing order, followed by the entries of all log files,
  in listing order.
\<close>

theorem readChromiumLevelDB_tables_then_logs:
  assumes "readdir fs dir = Some files"
    and "\<forall>f\<in>set files. endsWith f ''.ldb'' \<or> endsWith f ''.sst'' \<longrightarrow>
           parseSSTable argLimit snappyUncompress (readFile fs (join dir f)) = Some (Inr (tables f))
           \<and> int (length (tables f)) \<le> argLimit"
    and "\<forall>f\<in>set files. endsWith f ''.log'' \<longrightarrow>
           parseLogFile (readFile fs (join dir f)) = Some (Inr (logs f))
           \<and> int (length (logs f)) \<le> argLimit"
  shows "readChromiumLevelDB argLimit snappyUncompress fs dir
         = Some (Inr (concat (map tables (filter (\<lambda>f. endsWith f ''.ldb'' \<or> endsWith f ''.sst'') files))
                      @ concat (map logs (filter (\<lambda>f. endsWith f ''.log'') files))))"
  using assms by (rule readChromiumLevelDB_results)

lemma example_listing:
  "readdir example_fs ''db'' = Some [''000003.log'', ''000005.ldb'', ''CURRENT'']"
  by (simp add: example_fs_def)

lemma example_log_entries:
  "parseLogFile (readFile example_fs (join ''db'' ''000003.log''))
   = Some (Inr [\<lparr>key = [108], value = [49]\<rparr>])"
  by code_simp

lemma example_table_entries:
  "parseSSTable 100000 no_snappy (readFile example_fs (join ''db'' ''000005.ldb''))
   = Some (Inr [\<lparr>key = [115], value = [50]\<rparr>])"
  by code_simp

text \<open>
  The claim as stated fails: the example directory lists the log file before the table file,
  and the entry of the table file comes first in the result. The engine of the example
  accepts 100000 arguments, far more than any file of the directory yields.
\<close>

theorem readChromiumLevelDB_order_counterexample:
  "readdir example_fs ''db'' = Some [''000003.log'', ''000005.ldb'', ''CURRENT''] \<and>
   parseLogFile (readFile example_fs (join ''db'' ''000003.log''))
     = Some (Inr [\<lparr>key = [108], value = [49]\<rparr>]) \<and>
   parseSSTable 100000 no_snappy (readFile example_fs (join ''db'' ''000005.ldb''))
     = Some (Inr [\<lparr>key = [115], value = [50]\<rparr>]) \<and>
   readChromiumLevelDB 100000 no_snappy example_fs ''db''
     = Some (Inr [\<lparr>key = [115], value = [50]\<rparr>, \<lparr>key = [108], value = [49]\<rparr>])"
proof -
  have "readChromiumLevelDB 100000 no_snappy example_fs ''db''
     = Some (Inr [\<lparr>key = [115], value = [50]\<rparr>, \<lparr>key = [108], value = [49]\<rparr>])"
    by code_simp
  with example_listing example_log_entries example_table_entries show ?thesis by blast
qed

theorem readChromiumLevelDB_tables_then_logs_witness:
  "readdir example_fs ''db'' = Some [''000003.log'', ''000005.ldb'', ''CURRENT''] \<and>
   endsWith ''000005.ldb'' ''.ldb'' \<and>
   parseSSTable 100000 no_snappy (readFile example_fs (join ''db'' ''000005.ldb''))
     = Some (Inr [\<lparr>key = [115], value = [50]\<rparr>]) \<and>
   int (length [\<lparr>key = [115], value = [50]\<rparr>]) \<le> 100000 \<and>
   endsWith ''000003.log'' ''.log'' \<and>
   parseLogFile (readFile example_fs (join ''db'' ''000003.log''))
     = Some (Inr [\<lparr>key = [108], value = [49]\<rparr>]) \<and>
   int (length [\<lparr>key = [108], value = [49]\<rparr>]) \<le> 100000 \<and>
   readChromiumLevelDB 100000 no_snappy example_fs ''db''
     = Some (Inr (concat (map (\<lambda>f. [\<lparr>key = [115], value = [50]\<rparr>])
                     (filter (\<lambda>f. endsWith f ''.ldb'' \<or> endsWith f ''.sst'')
                        [''000003.log'', ''000005.ldb'', ''CURRENT'']))
                  @ concat (map (\<lambda>f. [\<lparr>key = [108], value = [49]\<rparr>])
                     (filter (\<lambda>f. endsWith f ''.log'')
                        [''000003.log'', ''000005.ldb'', ''CURRENT'']))))"
proof -
  have e: "\<not> endsWith ''000003.log'' ''.ldb''" "\<not> endsWith ''000003.log'' ''.sst''"
    "endsWith ''000005.ldb'' ''.ldb''" "\<not> endsWith ''CURRENT'' ''.ldb''"
    "\<not> endsWith ''CURRENT'' ''.sst''" "endsWith ''000003.log'' ''.log''"
    "\<not> endsWith ''000005.ldb'' ''.log''" "\<not> endsWith ''CURRENT'' ''.log''"
    by (simp_all add: endsWith_def)
  have n: "int (length [\<lparr>key = [115], value = [50]\<rparr>]) \<le> 100000"
    "int (length [\<lparr>key = [108], value = [49]\<rparr>]) \<le> 100000"
    by simp_all
  have a: "\<forall>f\<in>set [''000003.log'', ''000005.ldb'', ''CURRENT''].
      endsWith f ''.ldb'' \<or> endsWith f ''.sst'' \<longrightarrow>
      parseSSTable 100000 no_snappy (readFile example_fs (join ''db'' f))
      = Some (Inr ((\<lambda>f. [\<lparr>key = [115], value = [50]\<rparr>]) f))
      \<and> int (length ((\<lambda>f. [\<lparr>key = [115], value = [50]\<rparr>]) f)) \<le> 100000"
    using e example_table_entries by simp
  have b: "\<forall>f\<in>set [''000003.log'', ''000005.ldb'', ''CURRENT''].
      endsWith f ''.log'' \<longrightarrow>
      parseLogFile (readFile example_fs (join ''db'' f))
      = Some (Inr ((\<lambda>f. [\<lparr>key = [108], value = [49]\<rparr>]) f))
      \<and> int (length ((\<lambda>f. [\<lparr>key = [108], value = [49]\<rparr>]) f)) \<le> 100000"
    using e example_log_entries by simp
  from readChromiumLevelDB_tables_then_logs[OF example_listing a b] example_listing
    e(3) e(6) n example_table_entries example_log_entries
  show ?thesis by blast
qed

text \<open>
  Beyond the limit the scan fails. With an engine that accepts no spread argument at all,
  the block of the example table is skipped inside \<open>parseSSTable\<close>, whose empty result is
  pushed without error, and the push of the log file's entry makes the scan raise.
\<close>

lemma parseSSTable_block_skipped:
  "parseSSTable 0 no_snappy (readFile example_fs (join ''db'' ''000005.ldb'')) = Some (Inr [])"
  by code_simp

lemma readChromiumLevelDB_RangeError:
  "readChromiumLevelDB 0 no_snappy example_fs ''db'' = Some (Inl RangeError)"
  by code_simp

section \<open>Substring search\<close>

lemma starts_with_iff: "(\<exists>post. xs = pat @ post) \<longleftrightarrow> take (length pat) xs = pat"
proof
  assume "\<exists>post. xs = pat @ post"
  then show "take (length pat) xs = pat" by auto
next
  assume "take (length pat) xs = pat"
  then have "xs = pat @ drop (length pat) xs" by (metis append_take_drop_id)
  then show "\<exists>post. xs = pat @ post" by blast
qed

lemma indexOf_scan_absent:
  "indexOf_scan buf pat i = - 1 \<Longrightarrow> 0 \<le> i \<Longrightarrow> \<not> contains_run buf pat"
proof (induction buf arbitrary: i)
  case Nil
  then show ?case by (auto simp: contains_run_def split: if_splits)
next
  case (Cons b bs)
  from Cons.prems have ns: "take (length pat) (b # bs) \<noteq> pat"
    and rec: "indexOf_scan bs pat (i + 1) = - 1"
    by (auto split: if_splits)
  have nb: "\<not> contains_run bs pat" using Cons.IH[OF rec] Cons.prems(2) by simp
  show ?case
  proof
    assume "contains_run (b # bs) pat"
    then obtain pre post where d: "b # bs = pre @ pat @ post" by (auto simp: contains_run_def)
    show False
    proof (cases pre)
      case Nil
      then have "\<exists>post. b # bs = pat @ post" using d by auto
      then show False using ns starts_with_iff by blast
    next
      case (Cons p pre')
      then have "bs = pre' @ pat @ post" using d by simp
      then show False using nb by (auto simp: contains_run_def)
    qed
  qed
qed

lemma indexOf_scan_found:
  "indexOf_scan buf pat i \<noteq> - 1 \<Longrightarrow> 0 \<le> i \<Longrightarrow>
   \<exists>pre post. buf = pre @ pat @ post \<and> indexOf_scan buf pat i = i + int (length pre) \<and>
     (\<forall>pre' post'. buf = pre' @ pat @ post' \<longrightarrow> length pre \<le> length pre')"
proof (induction buf arbitrary: i)
  case Nil
  then have "pat = []" by (auto split: if_splits)
  then show ?case by simp
next
  case (Cons b bs)
  show ?case
  proof (cases "take (length pat) (b # bs) = pat")
    case True
    then obtain post where "b # bs = pat @ post" using starts_with_iff by blast
    then have "b # bs = [] @ pat @ post" by simp
    moreover have "indexOf_scan (b # bs) pat i = i + int (length ([] :: buffer))"
      using True by simp
    ultimately show ?thesis by (metis le0 list.size(3))
  next
    case False
    then have eq: "indexOf_scan (b # bs) pat i = indexOf_scan bs pat (i + 1)" by simp
    then have "indexOf_scan bs pat (i + 1) \<noteq> - 1" using Cons.prems(1) by simp
    from Cons.IH[OF this] Cons.prems(2)
    obtain pre post where d: "bs = pre @ pat @ post"
      and j: "indexOf_scan bs pat (i + 1) = i + 1 + int (length pre)"
      and m: "\<forall>pre' post'. bs = pre' @ pat @ post' \<longrightarrow> length pre \<le> length pre'"
      by auto
    have d': "b # bs = (b # pre) @ pat @ post" using d by simp
    have j': "indexOf_scan (b # bs) pat i = i + int (length (b # pre))" using eq j by simp
    have m': "length (b # pre) \<le> length pre'" if "b # bs = pre' @ pat @ post'" for pre' post'
    proof (cases pre')
      case Nil
      then have "\<exists>post. b # bs = pat @ post" using that by auto
      then show ?thesis using False starts_with_iff by blast
    next
      case (Cons p pre'')
      then have "bs = pre'' @ pat @ post'" using that by simp
      then have "length pre \<le> length pre''" using m by blast
      then show ?thesis using Cons by simp
    qed
    from d' j' m' show ?thesis by blast
  qed
qed

lemma buffer_includes_iff: "buffer_includes buf pat \<longleftrightarrow> contains_run buf pat"
proof
  assume "buffer_includes buf pat"
  then have "indexOf_scan buf pat 0 \<noteq> - 1" by (simp add: buffer_includes_def indexOf_def)
  from indexOf_scan_found[OF this] show "contains_run buf pat"
    by (auto simp: contains_run_def)
next
  assume "contains_run buf pat"
  then show "buffer_includes buf pat"
    using indexOf_scan_absent[of buf pat 0] by (auto simp: buffer_includes_def indexOf_def)
qed

text \<open>
  C9. \<open>findKeysContaining\<close> returns the entries of \<open>readChromiumLevelDB\<close> whose key
  contains the pattern as a contiguous byte run, in the same order, and nothing else; it
  returns when the scan returns.
\<close>

theorem findKeysContaining_subset:
  "findKeysContaining argLimit snappyUncompress fs dir pattern =
     (case readChromiumLevelDB argLimit snappyUncompress fs dir of
        None \<Rightarrow> None
      | Some (Inl e) \<Rightarrow> Some (Inl e)
      | Some (Inr scanned) \<Rightarrow>
          Some (Inr (filter (\<lambda>entry. contains_run (key entry) pattern) scanned)))"
  by (simp add: findKeysContaining_def buffer_includes_iff split: option.splits sum.splits)

theorem findKeysContaining_subset_witness:
  "readChromiumLevelDB 100000 no_snappy example_fs ''db''
     = Some (Inr [\<lparr>key = [115], value = [50]\<rparr>, \<lparr>key = [108], value = [49]\<rparr>]) \<and>
   contains_run [108] [108] \<and> \<not> contains_run [115] [108] \<and>
   findKeysContaining 100000 no_snappy example_fs ''db'' [108]
     = Some (Inr [\<lparr>key = [108], value = [49]\<rparr>])"
proof -
  have s: "readChromiumLevelDB 100000 no_snappy example_fs ''db''
     = Some (Inr [\<lparr>key = [115], value = [50]\<rparr>, \<lparr>key = [108], value = [49]\<rparr>])"
    by code_simp
  have a: "contains_run [108] [108]"
    unfolding buffer_includes_iff[symmetric] by code_simp
  have b: "\<not> contains_run [115] [108]"
    unfolding buffer_includes_iff[symmetric] by code_simp
  from findKeysContaining_subset[of 100000 no_snappy example_fs "''db''" "[108]"] s a b
  show ?thesis by simp
qed

section \<open>Token extraction from the decrypted cookie\<close>

lemma printable_iff: "printable b \<longleftrightarrow> \<not> (b < 0x21 \<or> b > 0x7e)"
  by (auto simp: printable_def)

lemma token_end_takeWhile:
  "0 \<le> e \<Longrightarrow> token_end plain e = e + int (length (takeWhile printable (drop (nat e) plain)))"
proof (induction plain e rule: token_end.induct)
  case (1 plain e)
  show ?case
  proof (cases "e < int (length plain)")
    case False
    then show ?thesis using "1.prems" by (simp add: token_end.simps[of plain e])
  next
    case True
    let ?b = "plain ! nat e"
    have idx: "js_index plain e = Some ?b" using True "1.prems" by (simp add: js_index_def)
    have d: "drop (nat e) plain = ?b # drop (nat (e + 1)) plain"
      using True "1.prems" by (simp add: Cons_nth_drop_Suc nat_add_distrib)
    show ?thesis
    proof (cases "printable ?b")
      case False
      then have "token_end plain e = e"
        using True idx by (simp add: token_end.simps[of plain e] printable_iff)
      then show ?thesis using False d by simp
    next
      case p: True
      then have np: "\<not> (?b < 0x21 \<or> ?b > 0x7e)" by (simp add: printable_iff)
      have "token_end plain e = token_end plain (e + 1)"
        using True idx np by (simp add: token_end.simps[of plain e])
      also have "\<dots> = e + 1 + int (length (takeWhile printable (drop (nat (e + 1)) plain)))"
        using "1.IH"(2)[OF True idx np] "1.prems" by simp
      finally show ?thesis using p d by simp
    qed
  qed
qed

lemma subarray_take:
  "0 \<le> i \<Longrightarrow> subarray buf i (i + int n) = take n (drop (nat i) buf)"
  by (simp add: subarray_nonneg)

lemma marker_printable: "\<forall>b\<in>set marker. printable b"
  by (simp add: marker_def printable_def)

lemma same_length_prefix:
  assumes "pre @ xs = pre' @ ys" "length pre = length pre'"
  shows "pre = pre' \<and> xs = ys"
  using assms by simp

lemma token_of_plain_absent:
  assumes "\<not> contains_run plain marker"
  shows "token_of_plain pf plain = toStringUtf8 pf plain"
proof -
  have "indexOf_scan plain marker 0 = - 1"
    using indexOf_scan_found[of plain marker 0] assms by (auto simp: contains_run_def)
  then show ?thesis by (simp add: token_of_plain_def indexOf_def)
qed

lemma token_of_plain_present:
  assumes d: "plain = pre @ marker @ post"
    and first: "\<forall>pre' post'. plain = pre' @ marker @ post' \<longrightarrow> length pre \<le> length pre'"
  shows "token_of_plain pf plain
         = (case decodeURIComponent pf (toStringUtf8 pf (marker @ takeWhile printable post)) of
              Inl e \<Rightarrow> toStringUtf8 pf (marker @ takeWhile printable post)
            | Inr decoded \<Rightarrow> decoded)"
proof -
  have "contains_run plain marker" using d by (auto simp: contains_run_def)
  then have ne: "indexOf_scan plain marker 0 \<noteq> - 1"
    using indexOf_scan_absent[of plain marker 0] by auto
  from indexOf_scan_found[OF ne]
  obtain pre0 post0 where d0: "plain = pre0 @ marker @ post0"
    and idx0: "indexOf_scan plain marker 0 = int (length pre0)"
    and min0: "\<forall>pre' post'. plain = pre' @ marker @ post' \<longrightarrow> length pre0 \<le> length pre'"
    by auto
  have "length pre \<le> length pre0" using first d0 by blast
  moreover have "length pre0 \<le> length pre" using min0 d by blast
  ultimately have "length pre0 = length pre" by simp
  then have "pre0 = pre" using d d0 same_length_prefix by metis
  then have idx: "indexOf plain marker = int (length pre)" using idx0 by (simp add: indexOf_def)
  have dr: "drop (nat (int (length pre))) plain = marker @ post" using d by simp
  have tw: "takeWhile printable (marker @ post) = marker @ takeWhile printable post"
    using marker_printable by (simp add: takeWhile_append2)
  have e: "token_end plain (int (length pre))
           = int (length pre) + int (length (marker @ takeWhile printable post))"
    using token_end_takeWhile[of "int (length pre)" plain] dr tw by simp
  have cand: "marker @ takeWhile printable post = takeWhile printable (marker @ post)"
    using tw by simp
  have "subarray plain (int (length pre))
          (int (length pre) + int (length (marker @ takeWhile printable post)))
        = take (length (marker @ takeWhile printable post)) (drop (nat (int (length pre))) plain)"
    by (rule subarray_take) simp
  also have "\<dots> = take (length (takeWhile printable (marker @ post))) (marker @ post)"
    unfolding dr cand ..
  also have "\<dots> = takeWhile printable (marker @ post)"
    by (rule takeWhile_eq_take[symmetric])
  finally have sub: "subarray plain (int (length pre))
      (int (length pre) + int (length (marker @ takeWhile printable post)))
      = marker @ takeWhile printable post"
    using cand by simp
  have nn: "int (length pre) \<noteq> - 1" by simp
  show ?thesis
    unfolding token_of_plain_def Let_def idx e sub using nn by simp
qed

lemma subarray_0_3: "subarray buf 0 3 = take 3 buf"
  using subarray_nonneg[of 0 3 buf] by simp

lemma subarray_3_end: "subarray buf 3 (int (length buf)) = drop 3 buf"
proof (cases "3 \<le> length buf")
  case True
  then show ?thesis using subarray_nonneg[of 3 "int (length buf)" buf] by simp
next
  case False
  then show ?thesis by (simp add: subarray_def clamp_index_def)
qed

lemma printable_range: "printable = (\<lambda>b. 0x21 \<le> b \<and> b \<le> 0x7e)"
  by (rule ext) (simp add: printable_def)

text \<open>
  C6. When the input is not empty and the decryption of the input without its \<open>v10\<close> or
  \<open>v11\<close> prefix yields \<open>plain\<close>: if \<open>xoxd-\<close> does not occur in \<open>plain\<close>, the whole
  plaintext is returned as text; otherwise, with the first occurrence at the end of \<open>pre\<close>,
  the candidate is the marker followed by the longest run of bytes in \<open>0x21..0x7E\<close> after
  it, and the result is what \<open>decodeURIComponent\<close> returns for the candidate, or the
  candidate itself when \<open>decodeURIComponent\<close> throws.
\<close>

theorem decryptChromiumCookieValue_token:
  assumes "encrypted \<noteq> []"
    and "decipher pf (pbkdf2Sync pf password salt 1003 16) (replicate 16 0x20)
           (if toStringUtf8 pf (take 3 encrypted) = v10 \<or> toStringUtf8 pf (take 3 encrypted) = v11
            then drop 3 encrypted else encrypted) = Inr plain"
  shows "(\<not> contains_run plain marker \<longrightarrow>
            decryptChromiumCookieValue pf encrypted password = Inr (toStringUtf8 pf plain)) \<and>
         (\<forall>pre post.
            plain = pre @ marker @ post \<and>
            (\<forall>pre' post'. plain = pre' @ marker @ post' \<longrightarrow> length pre \<le> length pre') \<longrightarrow>
            decryptChromiumCookieValue pf encrypted password
            = Inr (case decodeURIComponent pf
                         (toStringUtf8 pf (marker @ takeWhile (\<lambda>b. 0x21 \<le> b \<and> b \<le> 0x7e) post)) of
                     Inl e \<Rightarrow> toStringUtf8 pf (marker @ takeWhile (\<lambda>b. 0x21 \<le> b \<and> b \<le> 0x7e) post)
                   | Inr decoded \<Rightarrow> decoded))"
proof -
  have "decryptChromiumCookieValue pf encrypted password
        = (case decipher pf (pbkdf2Sync pf password salt 1003 16) (replicate 16 0x20)
                  (if toStringUtf8 pf (take 3 encrypted) = v10
                      \<or> toStringUtf8 pf (take 3 encrypted) = v11
                   then drop 3 encrypted else encrypted) of
             Inl e \<Rightarrow> Inl e
           | Inr plain \<Rightarrow> Inr (token_of_plain pf plain))"
    using assms(1)
    by (simp only: decryptChromiumCookieValue_def Let_def subarray_0_3 subarray_3_end
        length_0_conv if_False)
  then have "decryptChromiumCookieValue pf encrypted password = Inr (token_of_plain pf plain)"
    unfolding assms(2) by simp
  then show ?thesis
    using token_of_plain_absent[of plain pf] token_of_plain_present[of plain _ _ pf]
    unfolding printable_range
    by (metis (no_types, lifting))
qed

lemma indexOf_scan_le:
  "buf = pre @ pat @ post \<Longrightarrow> indexOf_scan buf pat i \<le> i + int (length pre)"
proof (induction pre arbitrary: buf i)
  case Nil
  then have t: "take (length pat) buf = pat" by simp
  show ?case
  proof (cases buf)
    case Nil
    then show ?thesis using t by simp
  next
    case (Cons b bs)
    then show ?thesis using t by simp
  qed
next
  case (Cons p pre)
  then have buf: "buf = p # (pre @ pat @ post)" by simp
  have "indexOf_scan (pre @ pat @ post) pat (i + 1) \<le> i + 1 + int (length pre)"
    by (rule Cons.IH) simp
  then show ?case unfolding buf by simp
qed

lemma indexOf_scan_first:
  assumes "indexOf_scan buf pat 0 = int n" "buf = pre @ pat @ post"
  shows "n \<le> length pre"
  using indexOf_scan_le[OF assms(2), of 0] assms(1) by simp

text \<open>
  Three inputs on the example platform. \<open>AB\<close> holds no marker and is returned whole. In
  \<open>v10\<close> followed by \<open> Axoxd-A%2FB z\<close> the candidate is \<open>xoxd-A%2FB\<close> and the result is
  \<open>xoxd-A/B\<close>. In \<open>v11\<close> followed by \<open>xoxd-%zz\<close>, a line feed and \<open>1\<close>, the candidate
  \<open>xoxd-%zz\<close> is not decodable and is returned as it is.
\<close>

theorem decryptChromiumCookieValue_token_witness:
  "[0x41, 0x42 :: 8 word] \<noteq> [] \<and>
   toStringUtf8 example_platform (take 3 [0x41, 0x42]) \<noteq> v10 \<and>
   toStringUtf8 example_platform (take 3 [0x41, 0x42]) \<noteq> v11 \<and>
   decipher example_platform (pbkdf2Sync example_platform [] salt 1003 16) (replicate 16 0x20)
     [0x41, 0x42] = Inr [0x41, 0x42] \<and>
   \<not> contains_run [0x41, 0x42] marker \<and>
   decryptChromiumCookieValue example_platform [0x41, 0x42] [] = Inr [0x41, 0x42] \<and>
   toStringUtf8 example_platform
     (take 3 [0x76, 0x31, 0x30, 0x20, 0x41, 0x78, 0x6f, 0x78, 0x64, 0x2d, 0x41, 0x25, 0x32, 0x46,
              0x42, 0x20, 0x7a]) = v10 \<and>
   decipher example_platform (pbkdf2Sync example_platform [] salt 1003 16) (replicate 16 0x20)
     (drop 3 [0x76, 0x31, 0x30, 0x20, 0x41, 0x78, 0x6f, 0x78, 0x64, 0x2d, 0x41, 0x25, 0x32, 0x46,
              0x42, 0x20, 0x7a])
     = Inr [0x20, 0x41, 0x78, 0x6f, 0x78, 0x64, 0x2d, 0x41, 0x25, 0x32, 0x46, 0x42, 0x20, 0x7a] \<and>
   [0x20, 0x41, 0x78, 0x6f, 0x78, 0x64, 0x2d, 0x41, 0x25, 0x32, 0x46, 0x42, 0x20, 0x7a]
     = [0x20, 0x41] @ marker @ [0x41, 0x25, 0x32, 0x46, 0x42, 0x20, 0x7a] \<and>
   indexOf [0x20, 0x41, 0x78, 0x6f, 0x78, 0x64, 0x2d, 0x41, 0x25, 0x32, 0x46, 0x42, 0x20, 0x7a]
     marker = int (length [0x20, 0x41 :: 8 word]) \<and>
   decodeURIComponent example_platform
     [0x78, 0x6f, 0x78, 0x64, 0x2d, 0x41, 0x25, 0x32, 0x46, 0x42]
     = Inr [0x78, 0x6f, 0x78, 0x64, 0x2d, 0x41, 0x2f, 0x42] \<and>
   decryptChromiumCookieValue example_platform
     [0x76, 0x31, 0x30, 0x20, 0x41, 0x78, 0x6f, 0x78, 0x64, 0x2d, 0x41, 0x25, 0x32, 0x46, 0x42,
      0x20, 0x7a] []
     = Inr [0x78, 0x6f, 0x78, 0x64, 0x2d, 0x41, 0x2f, 0x42] \<and>
   toStringUtf8 example_platform
     (take 3 [0x76, 0x31, 0x31, 0x78, 0x6f, 0x78, 0x64, 0x2d, 0x25, 0x7a, 0x7a, 0x0a, 0x31]) = v11 \<and>
   decipher example_platform (pbkdf2Sync example_platform [] salt 1003 16) (replicate 16 0x20)
     (drop 3 [0x76, 0x31, 0x31, 0x78, 0x6f, 0x78, 0x64, 0x2d, 0x25, 0x7a, 0x7a, 0x0a, 0x31])
     = Inr [0x78, 0x6f, 0x78, 0x64, 0x2d, 0x25, 0x7a, 0x7a, 0x0a, 0x31] \<and>
   [0x78, 0x6f, 0x78, 0x64, 0x2d, 0x25, 0x7a, 0x7a, 0x0a, 0x31]
     = [] @ marker @ [0x25, 0x7a, 0x7a, 0x0a, 0x31] \<and>
   decodeURIComponent example_platform [0x78, 0x6f, 0x78, 0x64, 0x2d, 0x25, 0x7a, 0x7a]
     = Inl URIError \<and>
   decryptChromiumCookieValue example_platform
     [0x76, 0x31, 0x31, 0x78, 0x6f, 0x78, 0x64, 0x2d, 0x25, 0x7a, 0x7a, 0x0a, 0x31] []
     = Inr [0x78, 0x6f, 0x78, 0x64, 0x2d, 0x25, 0x7a, 0x7a]"
proof -
  let ?pf = example_platform
  let ?key = "pbkdf2Sync ?pf [] salt 1003 16"
  let ?iv = "replicate 16 (0x20 :: 8 word)"
  let ?e1 = "[0x41, 0x42 :: 8 word]"
  let ?e2 = "[0x76, 0x31, 0x30, 0x20, 0x41, 0x78, 0x6f, 0x78, 0x64, 0x2d, 0x41, 0x25, 0x32, 0x46,
              0x42, 0x20, 0x7a :: 8 word]"
  let ?p2 = "[0x20, 0x41, 0x78, 0x6f, 0x78, 0x64, 0x2d, 0x41, 0x25, 0x32, 0x46, 0x42, 0x20,
              0x7a :: 8 word]"
  let ?pre2 = "[0x20, 0x41 :: 8 word]"
  let ?post2 = "[0x41, 0x25, 0x32, 0x46, 0x42, 0x20, 0x7a :: 8 word]"
  let ?c2 = "[0x78, 0x6f, 0x78, 0x64, 0x2d, 0x41, 0x25, 0x32, 0x46, 0x42 :: 16 word]"
  let ?r2 = "[0x78, 0x6f, 0x78, 0x64, 0x2d, 0x41, 0x2f, 0x42 :: 16 word]"
  let ?e3 = "[0x76, 0x31, 0x31, 0x78, 0x6f, 0x78, 0x64, 0x2d, 0x25, 0x7a, 0x7a, 0x0a, 0x31 :: 8 word]"
  let ?p3 = "[0x78, 0x6f, 0x78, 0x64, 0x2d, 0x25, 0x7a, 0x7a, 0x0a, 0x31 :: 8 word]"
  let ?post3 = "[0x25, 0x7a, 0x7a, 0x0a, 0x31 :: 8 word]"
  let ?c3 = "[0x78, 0x6f, 0x78, 0x64, 0x2d, 0x25, 0x7a, 0x7a :: 16 word]"
  have a1: "?e1 \<noteq> []" by simp
  have a2: "toStringUtf8 ?pf (take 3 ?e1) \<noteq> v10" by code_simp
  have a3: "toStringUtf8 ?pf (take 3 ?e1) \<noteq> v11" by code_simp
  have a4: "decipher ?pf ?key ?iv ?e1 = Inr ?e1" by code_simp
  have a5: "\<not> contains_run ?e1 marker"
    unfolding buffer_includes_iff[symmetric] by code_simp
  have a6: "toStringUtf8 ?pf ?e1 = [0x41, 0x42]" by code_simp
  have a: "decipher ?pf ?key ?iv
             (if toStringUtf8 ?pf (take 3 ?e1) = v10 \<or> toStringUtf8 ?pf (take 3 ?e1) = v11
              then drop 3 ?e1 else ?e1) = Inr ?e1"
    using a2 a3 a4 by simp
  have r1: "decryptChromiumCookieValue ?pf ?e1 [] = Inr [0x41, 0x42]"
    using conjunct1[OF decryptChromiumCookieValue_token[OF a1 a], rule_format, OF a5]
    unfolding a6 .
  have b1: "?e2 \<noteq> []" by simp
  have b2: "toStringUtf8 ?pf (take 3 ?e2) = v10" by code_simp
  have b3: "decipher ?pf ?key ?iv (drop 3 ?e2) = Inr ?p2" by code_simp
  have b4: "?p2 = ?pre2 @ marker @ ?post2" by (simp add: marker_def)
  have i2: "indexOf_scan ?p2 marker 0 = int 2" by code_simp
  have b5: "\<forall>pre' post'. ?p2 = pre' @ marker @ post' \<longrightarrow> length ?pre2 \<le> length pre'"
  proof (intro allI impI)
    fix pre' post' assume "?p2 = pre' @ marker @ post'"
    from indexOf_scan_first[OF i2 this] show "length ?pre2 \<le> length pre'" by simp
  qed
  have b6: "toStringUtf8 ?pf (marker @ takeWhile (\<lambda>b. 0x21 \<le> b \<and> b \<le> 0x7e) ?post2) = ?c2"
    by code_simp
  have b7: "decodeURIComponent ?pf ?c2 = Inr ?r2" by code_simp
  have b: "decipher ?pf ?key ?iv
             (if toStringUtf8 ?pf (take 3 ?e2) = v10 \<or> toStringUtf8 ?pf (take 3 ?e2) = v11
              then drop 3 ?e2 else ?e2) = Inr ?p2"
    using b2 b3 by simp
  have r2: "decryptChromiumCookieValue ?pf ?e2 [] = Inr ?r2"
    using conjunct2[OF decryptChromiumCookieValue_token[OF b1 b], rule_format, OF conjI[OF b4 b5]]
    unfolding b6 b7 by simp
  have i2': "indexOf ?p2 marker = int (length ?pre2)"
    using i2 by (simp add: indexOf_def)
  have c1: "?e3 \<noteq> []" by simp
  have c2: "toStringUtf8 ?pf (take 3 ?e3) = v11" by code_simp
  have c3: "decipher ?pf ?key ?iv (drop 3 ?e3) = Inr ?p3" by code_simp
  have c4: "?p3 = [] @ marker @ ?post3" by (simp add: marker_def)
  have c5: "\<forall>pre' post'. ?p3 = pre' @ marker @ post' \<longrightarrow> length ([] :: buffer) \<le> length pre'"
    by simp
  have c6: "toStringUtf8 ?pf (marker @ takeWhile (\<lambda>b. 0x21 \<le> b \<and> b \<le> 0x7e) ?post3) = ?c3"
    by code_simp
  have c7: "decodeURIComponent ?pf ?c3 = Inl URIError" by code_simp
  have c: "decipher ?pf ?key ?iv
             (if toStringUtf8 ?pf (take 3 ?e3) = v10 \<or> toStringUtf8 ?pf (take 3 ?e3) = v11
              then drop 3 ?e3 else ?e3) = Inr ?p3"
    using c2 c3 by simp
  have r3: "decryptChromiumCookieValue ?pf ?e3 [] = Inr ?c3"
    using conjunct2[OF decryptChromiumCookieValue_token[OF c1 c], rule_format, OF conjI[OF c4 c5]]
    unfolding c6 c7 by simp
  show ?thesis
    by (rule conjI[OF a1 conjI[OF a2 conjI[OF a3 conjI[OF a4 conjI[OF a5 conjI[OF r1
          conjI[OF b2 conjI[OF b3 conjI[OF b4 conjI[OF i2' conjI[OF b7 conjI[OF r2
          conjI[OF c2 conjI[OF c3 conjI[OF c4 conjI[OF c7 r3]]]]]]]]]]]]]]]])
qed

text \<open>
  \<open>Decode\<close> on a few strings: \<open>A%2fB\<close>, the UTF-8 escapes of U+00E9, U+20AC and U+1F600,
  an overlong encoding, an encoded surrogate, a truncated escape and a \<open>%\<close> without
  hexadecimal digits.
\<close>

lemma Decode_examples:
  "Decode [0x41, 0x25, 0x32, 0x66, 0x42] [] = Inr [0x41, 0x2f, 0x42] \<and>
   Decode [0x25, 0x43, 0x33, 0x25, 0x41, 0x39] [] = Inr [0xE9] \<and>
   Decode [0x25, 0x45, 0x32, 0x25, 0x38, 0x32, 0x25, 0x41, 0x43] [] = Inr [0x20AC] \<and>
   Decode [0x25, 0x46, 0x30, 0x25, 0x39, 0x46, 0x25, 0x39, 0x38, 0x25, 0x38, 0x30] []
     = Inr [0xD83D, 0xDE00] \<and>
   Decode [0x25, 0x43, 0x30, 0x25, 0x38, 0x30] [] = Inl URIError \<and>
   Decode [0x25, 0x45, 0x44, 0x25, 0x41, 0x30, 0x25, 0x38, 0x30] [] = Inl URIError \<and>
   Decode [0x41, 0x25, 0x32] [] = Inl URIError \<and>
   Decode [0x25, 0x7a, 0x7a] [] = Inl URIError"
  by code_simp

section \<open>The model on the inputs of the test suite\<close>

text \<open>
  The files of the example directory are the files the test helpers write for one put, and
  a log file written by \<open>createTestLogFile\<close> is read back entry by entry, as the test
  \<open>reads entries from log files\<close> expects.
\<close>

lemma example_log_is_test_log: "example_log = createTestLogFile [([108], [49])]"
  by (simp add: example_log_def createTestLogFile_def logRecord_def writeUInt32LE_def
      encodeVarint_small Let_def)

lemma example_table_is_test_table: "example_table = createTestSSTable [([115], [50])]"
proof -
  have r: "replicate 36 (0::8 word)
           = [0, 0, 0, 0, 0, 0, 0, 0, 0, 0, 0, 0, 0, 0, 0, 0, 0, 0, 0, 0, 0, 0, 0, 0,
              0, 0, 0, 0, 0, 0, 0, 0, 0, 0, 0, 0]"
    by code_simp
  show ?thesis
    by (simp add: example_table_def createTestSSTable_def writeUInt32LE_def
        encodeVarint_small Let_def LEVELDB_MAGIC_def r)
qed

lemma encode_ops_puts:
  "concat (map (\<lambda>(k, v). encode_op (Put k v)) kvs) = encode_ops (map (\<lambda>(k, v). Put k v) kvs)"
  by (induction kvs) (auto simp: encode_ops_def)

lemma puts_map_Put:
  "puts (map (\<lambda>(k, v). Put k v) kvs) = map (\<lambda>(k, v). \<lparr>key = k, value = v\<rparr>) kvs"
  by (induction kvs) auto

lemma createTestLogFile_roundtrip:
  assumes "length (concat (map (\<lambda>(k, v). encode_op (Put k v)) kvs)) \<le> 65523"
  shows "parseLogFile (Some (createTestLogFile kvs))
         = Some (Inr (map (\<lambda>(k, v). \<lparr>key = k, value = v\<rparr>) kvs))"
proof -
  let ?ops = "map (\<lambda>(k, v). Put k v) kvs"
  let ?header = "[1, 0, 0, 0, 0, 0, 0, 0] @ writeUInt32LE (length kvs)"
  let ?payload = "?header @ encode_ops ?ops"
  have whole: "createTestLogFile kvs = logRecord LOG_RECORD_FULL ?payload"
    unfolding createTestLogFile_def Let_def encode_ops_puts
    by (simp add: LOG_RECORD_FULL_def del: encode_op.simps)
  have h: "length ?header = 12" by (simp add: writeUInt32LE_def)
  have l: "length (encode_ops ?ops) \<le> 65523" using assms unfolding encode_ops_puts .
  then have fits: "\<forall>op\<in>set ?ops. op_fits op" by (intro op_fits_of_length) simp
  have stops: "batch_stops []" by (simp add: batch_stops_def)
  have "parseLogBatch (?header @ encode_ops ?ops @ []) [] = Some ([] @ puts ?ops)"
    by (rule parseLogBatch_encoded[OF h fits stops])
  then have batch: "parseLogBatch ?payload [] = Some (puts ?ops)" by simp
  have ne: "?payload \<noteq> []" by simp
  have len: "length ?payload \<le> 65535" using l h by simp
  show ?thesis
    unfolding whole parseLogFile_full[OF ne len] batch puts_map_Put by simp
qed

section \<open>The batch decoder is not total\<close>

text \<open>
  A five-byte varint with bit 31 set is returned by \<open>readVarint\<close> as a negative number.
  In the batch below the key length of the put is read as -7: the offset moves back to
  the last header byte, the value length 0 is read there, an empty entry is pushed and the
  loop is at offset 12 again. The loop never ends.
\<close>

lemma parseLogBatch_record_backwards:
  "parseLogBatch_record [0, 0, 0, 0, 0, 0, 0, 0, 0, 0, 0, 0, 1, 0xF9, 0xFF, 0xFF, 0xFF, 0x0F] 12 entries
   = Inr (Some (12, entries @ [\<lparr>key = [], value = []\<rparr>]))"
proof -
  have k: "readVarint [0, 0, 0, 0, 0, 0, 0, 0, 0, 0, 0, 0, 1, 0xF9, 0xFF, 0xFF, 0xFF, 0x0F] 13 = Inr (- 7, 5)"
    by code_simp
  have v: "readVarint [0, 0, 0, 0, 0, 0, 0, 0, 0, 0, 0, 0, 1, 0xF9, 0xFF, 0xFF, 0xFF, 0x0F] 11 = Inr (0, 1)"
    by code_simp
  have t: "js_index [0, 0, 0, 0, 0, 0, 0, 0, 0, 0, 0, 0, 1, 0xF9, 0xFF, 0xFF, 0xFF, 0x0F] 12 = Some 1"
    by code_simp
  have s1: "subarray [0, 0, 0, 0, 0, 0, 0, 0, 0, 0, 0, 0, 1, 0xF9, 0xFF, 0xFF, 0xFF, 0x0F] 18 11 = []"
    by code_simp
  have s2: "subarray [0, 0, 0, 0, 0, 0, 0, 0, 0, 0, 0, 0, 1, 0xF9, 0xFF, 0xFF, 0xFF, 0x0F] 12 12 = []"
    by code_simp
  show ?thesis
    unfolding parseLogBatch_record_def Let_def t
    by (simp add: k v s1 s2)
qed

lemma parseLogBatch_loop_no_result:
  assumes "parseLogBatch_loop batch offset entries = Some y"
  shows "\<not> (batch = [0, 0, 0, 0, 0, 0, 0, 0, 0, 0, 0, 0, 1, 0xF9, 0xFF, 0xFF, 0xFF, 0x0F]
            \<and> offset = 12)"
proof (rule parseLogBatch_loop.raw_induct[where
      P = "\<lambda>batch offset entries y.
             \<not> (batch = [0, 0, 0, 0, 0, 0, 0, 0, 0, 0, 0, 0, 1, 0xF9, 0xFF, 0xFF, 0xFF, 0x0F]
                \<and> offset = 12)", OF _ assms])
  fix loop :: "buffer \<Rightarrow> int \<Rightarrow> entry list \<Rightarrow> entry list option"
    and batch offset entries y
  assume IH: "\<And>batch offset entries y. loop batch offset entries = Some y \<Longrightarrow>
      \<not> (batch = [0, 0, 0, 0, 0, 0, 0, 0, 0, 0, 0, 0, 1, 0xF9, 0xFF, 0xFF, 0xFF, 0x0F]
         \<and> offset = 12)"
    and body: "(if offset < int (length batch) then
        (case parseLogBatch_record batch offset entries of
           Inl e \<Rightarrow> Some entries
         | Inr None \<Rightarrow> Some entries
         | Inr (Some (offset', entries')) \<Rightarrow> loop batch offset' entries')
      else Some entries) = Some y"
  show "\<not> (batch = [0, 0, 0, 0, 0, 0, 0, 0, 0, 0, 0, 0, 1, 0xF9, 0xFF, 0xFF, 0xFF, 0x0F]
            \<and> offset = 12)"
  proof
    assume b: "batch = [0, 0, 0, 0, 0, 0, 0, 0, 0, 0, 0, 0, 1, 0xF9, 0xFF, 0xFF, 0xFF, 0x0F] \<and> offset = 12"
    then have lt: "offset < int (length batch)" by simp
    from body b lt
    have "loop [0, 0, 0, 0, 0, 0, 0, 0, 0, 0, 0, 0, 1, 0xF9, 0xFF, 0xFF, 0xFF, 0x0F] 12
            (entries @ [\<lparr>key = [], value = []\<rparr>]) = Some y"
      by (simp add: parseLogBatch_record_backwards)
    from IH[OF this] show False by simp
  qed
qed

lemma parseLogBatch_never_returns:
  "parseLogBatch [0, 0, 0, 0, 0, 0, 0, 0, 0, 0, 0, 0, 1, 0xF9, 0xFF, 0xFF, 0xFF, 0x0F] [] = None"
proof -
  let ?B = "[0, 0, 0, 0, 0, 0, 0, 0, 0, 0, 0, 0, 1, 0xF9, 0xFF, 0xFF, 0xFF, 0x0F] :: buffer"
  have "parseLogBatch_loop ?B 12 [] = None"
  proof (cases "parseLogBatch_loop ?B 12 []")
    case None
    then show ?thesis .
  next
    case (Some y)
    from parseLogBatch_loop_no_result[OF this] show ?thesis by simp
  qed
  then show ?thesis by (simp add: parseLogBatch_def)
qed

end
